theory Spec2Isabelle
  imports Complex_Main "HOL-Library.Word"
begin

unbundle bit_operations_syntax

section \<open>Errors of the back-end\<close>

text \<open>
  The allocator has no error surface of its own. What the code can run into are a read past
  the end of a table, a vector or the graph, a shift of a 64-bit word by 64 or more, and
  arrival at a point marked \<^verbatim>\<open>assume_unreachable()\<close>; each is a value of this type, and a
  function that can run into one returns a sum.
\<close>

datatype error = OutOfBounds | UndefinedShift | Unreachable

section \<open>ABI descriptor (include/ir/arch.hpp)\<close>

text \<open>
  \<^verbatim>\<open>native_reg\<close> is \<^verbatim>\<open>zy::reg\<close>, declared in \<^verbatim>\<open>jit/zydis.hpp\<close>. The header uses the
  enumerators below and \<^verbatim>\<open>zy::NO_REG\<close>.
\<close>

datatype native_reg =
    NO_REG
  | RAX | RCX | RDX | RSP | RBP | RSI | RDI | RBX
  | R8 | R9 | R10 | R11 | R12 | R13 | R14 | R15
  | XMM0 | XMM1 | XMM2 | XMM3 | XMM4 | XMM5 | XMM6 | XMM7
  | XMM8 | XMM9 | XMM10 | XMM11 | XMM12 | XMM13 | XMM14 | XMM15

record abi =
  gp_nonvolatile :: "native_reg list"
  gp_volatile :: "native_reg list"
  gp_argument :: "native_reg list"
  gp_retval :: native_reg
  fp_nonvolatile :: "native_reg list"
  fp_volatile :: "native_reg list"
  fp_argument :: "native_reg list"
  fp_retval :: native_reg
  sp :: native_reg
  bp :: native_reg
  invalid :: native_reg
  shadow_stack :: int
  combined_arg_counter :: bool

text \<open>The branch \<^verbatim>\<open>#if LI_ABI_MS64\<close>.\<close>

definition ms64 :: abi where
  "ms64 = \<lparr>
     gp_nonvolatile = [RBP, RSI, RDI, RBX, R12, R13, R14, R15],
     gp_volatile = [RAX, RCX, RDX, R8, R9, R10, R11],
     gp_argument = [RCX, RDX, R8, R9],
     gp_retval = RAX,
     fp_nonvolatile = [XMM6, XMM7, XMM8, XMM9, XMM10, XMM11, XMM12, XMM13, XMM14, XMM15],
     fp_volatile = [XMM0, XMM1, XMM2, XMM3, XMM4, XMM5],
     fp_argument = [XMM0, XMM1, XMM2, XMM3],
     fp_retval = XMM0,
     sp = RSP,
     bp = RBP,
     invalid = NO_REG,
     shadow_stack = 0x20,
     combined_arg_counter = True \<rparr>"

text \<open>The branch \<^verbatim>\<open>#elif LI_ABI_SYSV64\<close>.\<close>

definition sysv64 :: abi where
  "sysv64 = \<lparr>
     gp_nonvolatile = [RBP, RBX, R12, R13, R14, R15],
     gp_volatile = [RAX, RDI, RSI, RDX, RCX, R8, R9, R10, R11],
     gp_argument = [RDI, RSI, RDX, RCX, R8, R9],
     gp_retval = RAX,
     fp_nonvolatile = [],
     fp_volatile = [XMM0, XMM1, XMM2, XMM3, XMM4, XMM5, XMM6, XMM7,
                    XMM8, XMM9, XMM10, XMM11, XMM12, XMM13, XMM14, XMM15],
     fp_argument = [XMM0, XMM1, XMM2, XMM3, XMM4, XMM5, XMM6, XMM7],
     fp_retval = XMM0,
     sp = RSP,
     bp = RBP,
     invalid = NO_REG,
     shadow_stack = 0x20,
     combined_arg_counter = False \<rparr>"

definition num_gp_reg :: "abi \<Rightarrow> nat" where
  "num_gp_reg a = length (gp_volatile a) + length (gp_nonvolatile a)"

definition num_fp_reg :: "abi \<Rightarrow> nat" where
  "num_fp_reg a = length (fp_volatile a) + length (fp_nonvolatile a)"

text \<open>
  \<^verbatim>\<open>virtual_to_native_map\<close>: the FP registers (non-volatile, then volatile), the
  sentinel, the GP registers (volatile, then non-volatile).
\<close>

definition virtual_to_native_map :: "abi \<Rightarrow> native_reg list" where
  "virtual_to_native_map a =
     fp_nonvolatile a @ fp_volatile a @ [invalid a] @ gp_volatile a @ gp_nonvolatile a"

text \<open>\<^verbatim>\<open>reg\<close> is \<^verbatim>\<open>int32_t\<close>; the indices met here are far from its bounds.\<close>

definition to_native :: "abi \<Rightarrow> int \<Rightarrow> native_reg" where
  "to_native a i =
     (let j = i + int (num_fp_reg a)
      in if 0 \<le> j \<and> j < int (length (virtual_to_native_map a))
         then virtual_to_native_map a ! nat j
         else invalid a)"

fun from_native_scan :: "native_reg list \<Rightarrow> native_reg \<Rightarrow> nat \<Rightarrow> nat option" where
  "from_native_scan [] n r = None"
| "from_native_scan (x # xs) n r = (if x = n then Some r else from_native_scan xs n (Suc r))"

definition from_native :: "abi \<Rightarrow> native_reg \<Rightarrow> int" where
  "from_native a n =
     (case from_native_scan (virtual_to_native_map a) n 0 of
        Some r \<Rightarrow> int r - int (num_fp_reg a)
      | None \<Rightarrow> 0)"

text \<open>
  A read \<^verbatim>\<open>table[idx]\<close> of a constant array: past the end it is an error, not a value.
\<close>

definition table_at :: "native_reg list \<Rightarrow> nat \<Rightarrow> error + native_reg" where
  "table_at t idx = (if idx < length t then Inr (t ! idx) else Inl OutOfBounds)"

text \<open>
  \<^verbatim>\<open>map_argument_native\<close>, with the comparison as the header writes it:
  \<^verbatim>\<open>std::size(gp_argument) < idx ? gp_argument[idx] : invalid\<close>.
  The indices are \<^verbatim>\<open>size_t\<close>; their sum is far from wrapping.
\<close>

definition map_argument_native :: "abi \<Rightarrow> nat \<Rightarrow> nat \<Rightarrow> bool \<Rightarrow> error + native_reg" where
  "map_argument_native a gp_arg_index fp_arg_index fp =
     (if \<not> fp then
        (let idx = (if combined_arg_counter a then gp_arg_index + fp_arg_index else gp_arg_index)
         in if length (gp_argument a) < idx then table_at (gp_argument a) idx
            else Inr (invalid a))
      else
        (let idx = (if combined_arg_counter a then gp_arg_index + fp_arg_index else fp_arg_index)
         in if length (fp_argument a) < idx then table_at (fp_argument a) idx
            else Inr (invalid a)))"

text \<open>
  \<^verbatim>\<open>map_argument\<close> returns \<^verbatim>\<open>to_native(map_argument_native(...))\<close> as a \<^verbatim>\<open>reg\<close>: the
  native register is converted to its enumerator value on the way in and on the way out.
  The values of the enumerators are in \<^verbatim>\<open>jit/zydis.hpp\<close>; \<open>enc\<close> stands for them.
\<close>

definition map_argument ::
  "(native_reg \<Rightarrow> int) \<Rightarrow> abi \<Rightarrow> nat \<Rightarrow> nat \<Rightarrow> bool \<Rightarrow> error + int" where
  "map_argument enc a gp_arg_index fp_arg_index fp =
     (case map_argument_native a gp_arg_index fp_arg_index fp of
        Inl e \<Rightarrow> Inl e
      | Inr n \<Rightarrow> Inr (enc (to_native a (enc n))))"

section \<open>Registers and instructions\<close>

text \<open>
  Modelled from the spec: \<^verbatim>\<open>mreg\<close>, \<^verbatim>\<open>minsn\<close> and \<^verbatim>\<open>vreg_first\<close> are declared in
  \<^verbatim>\<open>ir/opt.hpp\<close> and the headers it includes, which are not among the sources. A register
  is a 32-bit identifier \<open>uid\<close> in one of four bands (null, flag, physical, virtual) with a
  class; the model keeps the identifier together with the properties that the allocator
  asks of it. The null register has \<open>uid = 0\<close>.
\<close>

record mreg =
  uid :: nat
  is_flag :: bool
  is_phys :: bool
  reg_is_fp :: bool
  num :: int

definition null_reg :: mreg where
  "null_reg = \<lparr> uid = 0, is_flag = False, is_phys = False, reg_is_fp = False, num = 0 \<rparr>"

definition is_null :: "mreg \<Rightarrow> bool" where
  "is_null r = (uid r = 0)"

definition is_virt :: "mreg \<Rightarrow> bool" where
  "is_virt r = (\<not> is_flag r \<and> \<not> is_phys r)"

definition virt :: "mreg \<Rightarrow> int" where
  "virt r = num r"

definition phys :: "mreg \<Rightarrow> int" where
  "phys r = (if reg_is_fp r then - num r else num r)"

text \<open>\<^verbatim>\<open>is_pseudo\<close> of mopt_ralloc.cpp; \<open>vreg_first\<close> is the missing constant.\<close>

definition is_pseudo :: "int \<Rightarrow> mreg \<Rightarrow> bool" where
  "is_pseudo vreg_first r = (is_flag r \<or> (is_virt r \<and> virt r > 0 \<and> virt r < vreg_first))"

text \<open>\<^verbatim>\<open>interferes_with\<close> of mopt_ralloc.cpp.\<close>

definition interferes_with :: "int \<Rightarrow> mreg \<Rightarrow> mreg \<Rightarrow> bool" where
  "interferes_with vreg_first a b =
     (if is_pseudo vreg_first a \<or> is_pseudo vreg_first b then False
      else if reg_is_fp a \<noteq> reg_is_fp b then False
      else True)"

text \<open>
  Modelled from the spec: an instruction is a tuple \<open>(opcode, out, arg[0..3])\<close>; an operand
  is a register, an immediate or a memory reference \<open>(base, disp)\<close>. The allocator names
  six opcodes; every other one is \<open>other\<close>.
\<close>

datatype vop = movi | movf | loadi64 | storei64 | loadf64 | storef64 | other nat

datatype moperand = ONone | OReg mreg | OImm int | OMem mreg int

record minsn =
  vop :: vop
  out :: mreg
  arg :: "moperand list"

definition arg_at :: "minsn \<Rightarrow> nat \<Rightarrow> moperand" where
  "arg_at i k = (if k < length (arg i) then arg i ! k else ONone)"

fun is_reg :: "moperand \<Rightarrow> bool" where
  "is_reg (OReg r) = True"
| "is_reg _ = False"

fun reg_of :: "moperand \<Rightarrow> mreg" where
  "reg_of (OReg r) = r"
| "reg_of _ = null_reg"

text \<open>
  Modelled from the spec: a basic block carries its instructions, its successors, a hotness
  and four bitsets indexed by register identifier. A successor is a pointer to a block of
  the same procedure in the source and the index of that block in the list of blocks here;
  a bitset is the set of the identifiers whose bit is set.
\<close>

record basic_block =
  instructions :: "minsn list"
  successors :: "nat list"
  hot :: int
  df_def :: "nat set"
  df_ref :: "nat set"
  df_in_live :: "nat set"
  df_out_live :: "nat set"

subsection \<open>The register visitor\<close>

text \<open>
  Modelled from the spec: the visitor \<^verbatim>\<open>minsn::for_each_reg\<close>, declared with \<^verbatim>\<open>minsn\<close>. It
  yields every operand register of the instruction with \<open>is_read\<close>: the sources (a register
  operand, the base of a memory operand) as reads, then the definition \<open>out\<close> as a write.
  The null register is absent and is not visited. A visit names the place of the register
  in the instruction, for the callbacks that write through the reference.
\<close>

datatype reg_place = PArg nat | POut

fun operand_regs :: "nat \<Rightarrow> moperand \<Rightarrow> (reg_place \<times> mreg \<times> bool) list" where
  "operand_regs k (OReg r) = (if is_null r then [] else [(PArg k, r, True)])"
| "operand_regs k (OMem b d) = (if is_null b then [] else [(PArg k, b, True)])"
| "operand_regs k _ = []"

definition reg_places :: "minsn \<Rightarrow> (reg_place \<times> mreg \<times> bool) list" where
  "reg_places i =
     concat (map (\<lambda>k. operand_regs k (arg i ! k)) [0..<length (arg i)])
     @ (if is_null (out i) then [] else [(POut, out i, False)])"

definition for_each_reg :: "minsn \<Rightarrow> (mreg \<times> bool) list" where
  "for_each_reg i = map snd (reg_places i)"

section \<open>Interference graph and the colouring core (src/ir/mopt_ralloc.cpp)\<close>

text \<open>
  \<^verbatim>\<open>struct graph_node\<close>. The adjacency bitset \<open>vtx\<close> is the set of the indices whose bit is
  set; every bit index the allocator touches is below the size of the graph. The float
  \<open>priority\<close> is the real number it stands for. A node of the graph is named by its index
  in the vector (the source's \<^verbatim>\<open>it - gr.data()\<close>).
\<close>

record graph_node =
  vtx :: "nat set"
  priority :: real
  coalescing_hints :: "int list"
  hint_id :: nat
  color :: nat
  is_fp :: bool
  spill_slot :: int

definition popcount :: "nat set \<Rightarrow> nat" where
  "popcount bs = card bs"

text \<open>
  The scan of \<^verbatim>\<open>try_color\<close> over the nodes. It returns the pair \<open>(it, overlimit_it)\<close> with
  which the \<^verbatim>\<open>for\<close> loop ends; the \<^verbatim>\<open>break\<close> is the last branch.
\<close>

fun pick_scan ::
  "graph_node list \<Rightarrow> nat \<Rightarrow> nat \<Rightarrow> nat list \<Rightarrow> nat option \<Rightarrow> nat option \<times> nat option" where
  "pick_scan gr K M [] overlimit_it = (None, overlimit_it)"
| "pick_scan gr K M (i # rest) overlimit_it =
     (let n = gr ! i in
      if color n \<noteq> 0 then pick_scan gr K M rest overlimit_it
      else if popcount (vtx n) = 0 then pick_scan gr K M rest overlimit_it
      else
        (let deg = popcount (vtx n) - 1 in
         if deg > (if is_fp n then M else K) then
           (case overlimit_it of
              None \<Rightarrow> pick_scan gr K M rest (Some i)
            | Some ov \<Rightarrow>
                if priority (gr ! ov) > priority n then pick_scan gr K M rest (Some i)
                else pick_scan gr K M rest overlimit_it)
         else (Some i, overlimit_it)))"

text \<open>The node \<^verbatim>\<open>try_color\<close> goes on with; \<open>None\<close> is its \<^verbatim>\<open>return {0, 0}\<close>.\<close>

definition pick :: "graph_node list \<Rightarrow> nat \<Rightarrow> nat \<Rightarrow> nat option" where
  "pick gr K M =
     (case pick_scan gr K M [0..<length gr] None of
        (Some i, _) \<Rightarrow> Some i
      | (None, overlimit_it) \<Rightarrow> overlimit_it)"

text \<open>
  Remove from the graph: \<open>tmp\<close> takes the adjacency of the node, the node is left with an
  empty bitset, and its bit is reset in every node of \<open>tmp\<close>.
\<close>

definition reset_bit_in :: "nat \<Rightarrow> nat set \<Rightarrow> graph_node list \<Rightarrow> nat \<Rightarrow> graph_node list" where
  "reset_bit_in it tmp gr i =
     (if i \<in> tmp then gr[i := (gr ! i)\<lparr> vtx := vtx (gr ! i) - {it} \<rparr>] else gr)"

definition remove_node :: "graph_node list \<Rightarrow> nat \<Rightarrow> nat set \<Rightarrow> graph_node list" where
  "remove_node gr it tmp =
     foldl (reset_bit_in it tmp) (gr[it := (gr ! it)\<lparr> vtx := {} \<rparr>]) [0..<length gr]"

text \<open>
  Add the node back. \<^verbatim>\<open>color_mask\<close> is a 64-bit word; \<^verbatim>\<open>1ull << (color - 1)\<close> is defined
  for a shift below 64 only.
\<close>

definition color_bit :: "nat \<Rightarrow> error + 64 word" where
  "color_bit c = (if c - 1 < 64 then Inr (push_bit (c - 1) 1) else Inl UndefinedShift)"

fun add_back ::
  "nat \<Rightarrow> nat set \<Rightarrow> nat list \<Rightarrow> graph_node list \<Rightarrow> 64 word \<Rightarrow> error + (graph_node list \<times> 64 word)" where
  "add_back it tmp [] gr color_mask = Inr (gr, color_mask)"
| "add_back it tmp (i # rest) gr color_mask =
     (if i \<in> tmp then
        (let gr' = gr[i := (gr ! i)\<lparr> vtx := insert it (vtx (gr ! i)) \<rparr>] in
         if color (gr' ! i) \<noteq> 0 \<and> i \<noteq> it then
           (case color_bit (color (gr' ! i)) of
              Inl e \<Rightarrow> Inl e
            | Inr b \<Rightarrow> add_back it tmp rest gr' (color_mask AND NOT b))
         else add_back it tmp rest gr' color_mask)
      else add_back it tmp rest gr color_mask)"

text \<open>
  The coalescing hints are offsets from the node. \<open>Inr (Some c)\<close>: the colour \<open>c\<close> of a hint
  is taken; \<open>Inr None\<close>: the loop ran to its end.
\<close>

fun use_hints :: "graph_node list \<Rightarrow> nat \<Rightarrow> 64 word \<Rightarrow> int list \<Rightarrow> error + nat option" where
  "use_hints gr it color_mask [] = Inr None"
| "use_hints gr it color_mask (hint_off # rest) =
     (if hint_off = 0 then use_hints gr it color_mask rest
      else
        (let hint = int it + hint_off in
         if hint < 0 \<or> int (length gr) \<le> hint then Inl OutOfBounds
         else if color (gr ! nat hint) \<noteq> 0 then
           (case color_bit (color (gr ! nat hint)) of
              Inl e \<Rightarrow> Inl e
            | Inr b \<Rightarrow>
                if color_mask AND b \<noteq> 0 then Inr (Some (color (gr ! nat hint)))
                else use_hints gr it color_mask rest)
         else use_hints gr it color_mask rest))"

text \<open>\<^verbatim>\<open>std::countr_zero\<close> on 64 bits: the number of zero bits below the lowest set bit.\<close>

definition countr_zero :: "64 word \<Rightarrow> nat" where
  "countr_zero w = length (takeWhile (\<lambda>k. \<not> bit w k) [0..<64])"

text \<open>
  The search of a spill slot: \<open>slot_taken\<close> is the inner \<^verbatim>\<open>for\<close> loop, which finds a node
  other than \<open>it\<close> with the slot and with the bit of \<open>it\<close> in its adjacency.
\<close>

definition slot_taken :: "graph_node list \<Rightarrow> nat \<Rightarrow> int \<Rightarrow> bool" where
  "slot_taken gr it s =
     (\<exists>i \<in> set [0..<length gr]. spill_slot (gr ! i) = s \<and> it \<noteq> i \<and> it \<in> vtx (gr ! i))"

function find_spill_slot :: "graph_node list \<Rightarrow> nat \<Rightarrow> int \<Rightarrow> int" where
  "find_spill_slot gr it s = (if slot_taken gr it s then find_spill_slot gr it (s + 1) else s)"
  by pat_completeness auto
termination
proof (relation "measure (\<lambda>(gr, it, s). card {i. i < length gr \<and> s \<le> spill_slot (gr ! i)})")
  show "wf (measure (\<lambda>(gr, it, s). card {i. i < length gr \<and> s \<le> spill_slot (gr ! i)}))"
    by simp
next
  fix gr :: "graph_node list" and it :: nat and s :: int
  assume "slot_taken gr it s"
  then obtain i where i: "i < length gr" "spill_slot (gr ! i) = s"
    by (auto simp: slot_taken_def)
  let ?A = "{i. i < length gr \<and> s \<le> spill_slot (gr ! i)}"
  let ?B = "{i. i < length gr \<and> s + 1 \<le> spill_slot (gr ! i)}"
  have "?B \<subseteq> ?A" by auto
  moreover have "i \<in> ?A" "i \<notin> ?B" using i by auto
  ultimately have "?B \<subset> ?A" by blast
  moreover have "finite ?A" by simp
  ultimately have "card ?B < card ?A" by (rule psubset_card_mono [rotated])
  then show "((gr, it, s + 1), (gr, it, s))
      \<in> measure (\<lambda>(gr, it, s). card {i. i < length gr \<and> s \<le> spill_slot (gr ! i)})"
    by simp
qed

text \<open>Pick a colour, or spill: the last part of \<^verbatim>\<open>try_color\<close>.\<close>

definition select_color ::
  "graph_node list \<Rightarrow> nat \<Rightarrow> nat \<Rightarrow> nat \<Rightarrow> 64 word \<Rightarrow> nat \<Rightarrow> nat \<Rightarrow> graph_node list \<times> nat \<times> nat" where
  "select_color gr K M it color_mask rec_spill_gp rec_spill_fp =
     (let n = countr_zero color_mask in
      if n > (if is_fp (gr ! it) then M else K) then
        (gr[it := (gr ! it)\<lparr> color := 0, spill_slot := find_spill_slot gr it 1 \<rparr>],
         if is_fp (gr ! it) then rec_spill_gp else rec_spill_gp + 1,
         if is_fp (gr ! it) then rec_spill_fp + 1 else rec_spill_fp)
      else (gr[it := (gr ! it)\<lparr> color := n + 1 \<rparr>], rec_spill_gp, rec_spill_fp))"

text \<open>What the scan picks is an uncoloured node with a non-empty bitset.\<close>

lemma pick_scan_it:
  "pick_scan gr K M xs ov = (Some i, ov') \<Longrightarrow>
     i \<in> set xs \<and> color (gr ! i) = 0 \<and> popcount (vtx (gr ! i)) \<noteq> 0"
  by (induction xs arbitrary: ov) (auto simp: Let_def split: if_splits option.splits)

lemma pick_scan_overlimit:
  "pick_scan gr K M xs ov = (r, Some j) \<Longrightarrow>
     ov = Some j \<or> (j \<in> set xs \<and> color (gr ! j) = 0 \<and> popcount (vtx (gr ! j)) \<noteq> 0)"
  by (induction xs arbitrary: ov) (auto simp: Let_def split: if_splits option.splits)

lemma pick_eligible:
  assumes "pick gr K M = Some it"
  shows "it < length gr \<and> color (gr ! it) = 0 \<and> popcount (vtx (gr ! it)) \<noteq> 0"
proof (cases "pick_scan gr K M [0..<length gr] None")
  case (Pair a b)
  show ?thesis
  proof (cases a)
    case None
    with Pair assms have "b = Some it" by (simp add: pick_def)
    with Pair pick_scan_overlimit [of gr K M "[0..<length gr]" None a it]
    show ?thesis by auto
  next
    case (Some i)
    with Pair assms have "i = it" by (simp add: pick_def)
    with Pair Some pick_scan_it [of gr K M "[0..<length gr]" None it b]
    show ?thesis by auto
  qed
qed

lemma length_reset_bit_in [simp]: "length (reset_bit_in it tmp g i) = length g"
  by (simp add: reset_bit_in_def)

lemma reset_bit_in_nth:
  "j < length g \<Longrightarrow>
   reset_bit_in it tmp g i ! j =
     (if j = i \<and> i \<in> tmp then (g ! j)\<lparr> vtx := vtx (g ! j) - {it} \<rparr> else g ! j)"
  by (simp add: reset_bit_in_def nth_list_update)

lemma length_foldl_reset [simp]:
  "length (foldl (reset_bit_in it tmp) g xs) = length g"
  by (induction xs arbitrary: g) auto

lemma foldl_reset_nth:
  "j < length g \<Longrightarrow>
   foldl (reset_bit_in it tmp) g [0..<n] ! j =
     (if j < n \<and> j \<in> tmp then (g ! j)\<lparr> vtx := vtx (g ! j) - {it} \<rparr> else g ! j)"
proof (induction n)
  case 0
  then show ?case by simp
next
  case (Suc n)
  have "foldl (reset_bit_in it tmp) g [0..<Suc n] ! j =
        reset_bit_in it tmp (foldl (reset_bit_in it tmp) g [0..<n]) n ! j"
    by simp
  also have "\<dots> = (if j = n \<and> n \<in> tmp
        then (foldl (reset_bit_in it tmp) g [0..<n] ! j)
               \<lparr> vtx := vtx (foldl (reset_bit_in it tmp) g [0..<n] ! j) - {it} \<rparr>
        else foldl (reset_bit_in it tmp) g [0..<n] ! j)"
    using Suc.prems by (simp add: reset_bit_in_nth)
  finally show ?case using Suc by (auto simp: less_Suc_eq)
qed

lemma length_remove_node [simp]: "length (remove_node gr it tmp) = length gr"
  by (simp add: remove_node_def)

lemma remove_node_nth:
  "j < length gr \<Longrightarrow>
   remove_node gr it tmp ! j =
     (gr ! j)\<lparr> vtx := (if j = it then {} else if j \<in> tmp then vtx (gr ! j) - {it} else vtx (gr ! j)) \<rparr>"
  by (auto simp: remove_node_def foldl_reset_nth nth_list_update)

text \<open>
  \<^verbatim>\<open>try_color\<close>. The result is the graph as the call leaves it and the pair
  \<open>(spill_gp, spill_fp)\<close>.
\<close>

function try_color ::
  "graph_node list \<Rightarrow> nat \<Rightarrow> nat \<Rightarrow> error + (graph_node list \<times> nat \<times> nat)" where
  "try_color gr K M =
     (case pick gr K M of
        None \<Rightarrow> Inr (gr, 0, 0)
      | Some it \<Rightarrow>
          (let tmp = vtx (gr ! it) in
           case try_color (remove_node gr it tmp) K M of
             Inl e \<Rightarrow> Inl e
           | Inr (gr1, rec_spill_gp, rec_spill_fp) \<Rightarrow>
               (case add_back it tmp [0..<length gr1] gr1 (NOT 0) of
                  Inl e \<Rightarrow> Inl e
                | Inr (gr2, color_mask) \<Rightarrow>
                    (let gr3 = gr2[it := (gr2 ! it)\<lparr> vtx := tmp \<rparr>] in
                     case use_hints gr3 it color_mask (coalescing_hints (gr3 ! it)) of
                       Inl e \<Rightarrow> Inl e
                     | Inr (Some c) \<Rightarrow>
                         Inr (gr3[it := (gr3 ! it)\<lparr> color := c \<rparr>], rec_spill_gp, rec_spill_fp)
                     | Inr None \<Rightarrow>
                         Inr (select_color gr3 K M it color_mask rec_spill_gp rec_spill_fp)))))"
  by pat_completeness auto
termination
proof (relation "measure (\<lambda>(gr, K, M).
    card {i. i < length gr \<and> color (gr ! i) = 0 \<and> popcount (vtx (gr ! i)) \<noteq> 0})")
  show "wf (measure (\<lambda>(gr, K, M).
    card {i. i < length gr \<and> color (gr ! i) = 0 \<and> popcount (vtx (gr ! i)) \<noteq> 0}))"
    by simp
next
  fix gr :: "graph_node list" and K M it :: nat and tmp :: "nat set"
  assume p: "pick gr K M = Some it" and t: "tmp = vtx (gr ! it)"
  let ?g = "remove_node gr it tmp"
  let ?A = "{i. i < length gr \<and> color (gr ! i) = 0 \<and> popcount (vtx (gr ! i)) \<noteq> 0}"
  let ?B = "{i. i < length ?g \<and> color (?g ! i) = 0 \<and> popcount (vtx (?g ! i)) \<noteq> 0}"
  have it: "it < length gr" "color (gr ! it) = 0" "popcount (vtx (gr ! it)) \<noteq> 0"
    using pick_eligible [OF p] by auto
  have "i \<in> ?A" if "i \<in> ?B" for i
  proof -
    from that have i: "i < length gr" "color (gr ! i) = 0" "i \<noteq> it"
      and c: "card (if i \<in> tmp then vtx (gr ! i) - {it} else vtx (gr ! i)) \<noteq> 0"
      by (auto simp: remove_node_nth popcount_def split: if_splits)
    have "card (vtx (gr ! i)) \<noteq> 0"
    proof (cases "i \<in> tmp")
      case True
      with c have "0 < card (vtx (gr ! i) - {it})" by simp
      then have "finite (vtx (gr ! i) - {it})" "vtx (gr ! i) - {it} \<noteq> {}"
        by (simp_all add: card_gt_0_iff)
      then have "finite (vtx (gr ! i))" "vtx (gr ! i) \<noteq> {}" by auto
      then show ?thesis by (simp add: card_gt_0_iff)
    next
      case False
      with c show ?thesis by simp
    qed
    with i show ?thesis by (simp add: popcount_def)
  qed
  then have "?B \<subseteq> ?A" by blast
  moreover have "it \<in> ?A" using it by simp
  moreover have "it \<notin> ?B" using it by (simp add: remove_node_nth popcount_def)
  ultimately have "?B \<subset> ?A" by blast
  moreover have "finite ?A" by simp
  ultimately have "card ?B < card ?A" by (rule psubset_card_mono [rotated])
  then show "((?g, K, M), (gr, K, M)) \<in> measure (\<lambda>(gr, K, M).
      card {i. i < length gr \<and> color (gr ! i) = 0 \<and> popcount (vtx (gr ! i)) \<noteq> 0})"
    by simp
qed

declare try_color.simps [simp del]

text \<open>
  The vocabulary of the scan: a candidate is an uncoloured node with a non-empty bitset;
  its degree is \<^verbatim>\<open>popcount(vtx) - 1\<close>; its limit is \<open>M\<close> for an FP node and \<open>K\<close> otherwise.
\<close>

definition candidate :: "graph_node \<Rightarrow> bool" where
  "candidate n = (color n = 0 \<and> popcount (vtx n) \<noteq> 0)"

definition degree :: "graph_node \<Rightarrow> nat" where
  "degree n = popcount (vtx n) - 1"

definition limit_of :: "nat \<Rightarrow> nat \<Rightarrow> graph_node \<Rightarrow> nat" where
  "limit_of K M n = (if is_fp n then M else K)"

definition least_priority :: "graph_node list \<Rightarrow> nat list \<Rightarrow> nat option \<Rightarrow> nat option \<Rightarrow> bool" where
  "least_priority gr xs ov ov' =
     (case ov' of
        None \<Rightarrow> ov = None \<and> (\<forall>i\<in>set xs. \<not> candidate (gr ! i))
      | Some m \<Rightarrow>
          (ov = Some m \<or> (m \<in> set xs \<and> candidate (gr ! m)))
          \<and> (\<forall>i\<in>set xs. candidate (gr ! i) \<longrightarrow> priority (gr ! m) \<le> priority (gr ! i))
          \<and> (\<forall>j. ov = Some j \<longrightarrow> priority (gr ! m) \<le> priority (gr ! j)))"

text \<open>
  What \<^verbatim>\<open>build_graph\<close> hands to \<^verbatim>\<open>try_color\<close>: every bit index is below the size of
  the graph and the adjacency is symmetric (\<^verbatim>\<open>add_vertex\<close> sets both bits). A colouring is
  proper when two distinct adjacent coloured nodes never share a colour. A node is spilled
  when it has no colour and a spill slot.
\<close>

definition wf_graph :: "graph_node list \<Rightarrow> bool" where
  "wf_graph gr =
     (\<forall>i<length gr. vtx (gr ! i) \<subseteq> {..<length gr} \<and> (\<forall>j\<in>vtx (gr ! i). i \<in> vtx (gr ! j)))"

definition proper :: "graph_node list \<Rightarrow> bool" where
  "proper gr =
     (\<forall>i<length gr. \<forall>j\<in>vtx (gr ! i).
        j \<noteq> i \<and> color (gr ! i) \<noteq> 0 \<and> color (gr ! j) \<noteq> 0 \<longrightarrow> color (gr ! i) \<noteq> color (gr ! j))"

definition spilled :: "graph_node \<Rightarrow> bool" where
  "spilled n = (color n = 0 \<and> spill_slot n \<noteq> 0)"

text \<open>
  The shifts and the hints of \<^verbatim>\<open>try_color\<close> are defined on a graph whose colours fit the
  64-bit mask and whose hints point into the graph.
\<close>

definition defined_graph :: "graph_node list \<Rightarrow> bool" where
  "defined_graph gr =
     (\<forall>i<length gr. color (gr ! i) \<le> 64
        \<and> (\<forall>h\<in>set (coalescing_hints (gr ! i)).
              h \<noteq> 0 \<longrightarrow> 0 \<le> int i + h \<and> int i + h < int (length gr)))"

section \<open>build_graph: use counts and the initial graph\<close>

text \<open>A loop whose body can fail stops at the first failure.\<close>

fun fold_err :: "('a \<Rightarrow> 's \<Rightarrow> error + 's) \<Rightarrow> 'a list \<Rightarrow> 's \<Rightarrow> error + 's" where
  "fold_err f [] s = Inr s"
| "fold_err f (x # xs) s = (case f x s of Inl e \<Rightarrow> Inl e | Inr s' \<Rightarrow> fold_err f xs s')"

text \<open>
  The first loop of \<^verbatim>\<open>build_graph\<close>: \<^verbatim>\<open>reg_use_counter\<close> and \<^verbatim>\<open>max_reg_id\<close>.
  \<^verbatim>\<open>std::vector::resize\<close> fills with zeros; \<^verbatim>\<open>reg_use_counter[uid]\<close> past the end of the vector
  is an error.
\<close>

record use_state =
  reg_use_counter :: "nat list"
  max_reg_id :: nat

definition resize :: "nat list \<Rightarrow> nat \<Rightarrow> nat list" where
  "resize xs n = take n xs @ replicate (n - length xs) 0"

definition is_load_store :: "minsn \<Rightarrow> bool" where
  "is_load_store i = (vop i = loadi64 \<or> vop i = storei64 \<or> vop i = loadf64 \<or> vop i = storef64)"

definition bump :: "nat list \<Rightarrow> nat \<Rightarrow> nat \<Rightarrow> error + nat list" where
  "bump xs u d = (if u < length xs then Inr (xs[u := xs ! u + d]) else Inl OutOfBounds)"

definition count_reg :: "minsn \<Rightarrow> mreg \<times> bool \<Rightarrow> use_state \<Rightarrow> error + use_state" where
  "count_reg i v st =
     (case v of (r, is_read) \<Rightarrow>
        (let st1 = (if max_reg_id st < uid r
                    then \<lparr> reg_use_counter = resize (reg_use_counter st) (uid r + 1),
                           max_reg_id = uid r \<rparr>
                    else st) in
         case (if is_read then bump (reg_use_counter st1) (uid r) 1
               else Inr (reg_use_counter st1)) of
           Inl e \<Rightarrow> Inl e
         | Inr c1 \<Rightarrow>
             (case (if is_load_store i then bump c1 (uid r) 100 else Inr c1) of
                Inl e \<Rightarrow> Inl e
              | Inr c2 \<Rightarrow> Inr (st1\<lparr> reg_use_counter := c2 \<rparr>))))"

definition count_insn :: "minsn \<Rightarrow> use_state \<Rightarrow> error + use_state" where
  "count_insn i st = fold_err (count_reg i) (for_each_reg i) st"

definition count_block :: "basic_block \<Rightarrow> use_state \<Rightarrow> error + use_state" where
  "count_block bb st = fold_err count_insn (instructions bb) st"

definition count_uses :: "basic_block list \<Rightarrow> error + use_state" where
  "count_uses bbs =
     (case fold_err count_block bbs \<lparr> reg_use_counter = [], max_reg_id = 0 \<rparr> of
        Inl e \<Rightarrow> Inl e
      | Inr st \<Rightarrow> Inr (st\<lparr> max_reg_id := max_reg_id st + 1 \<rparr>))"

text \<open>
  Single-precision arithmetic on numbers without a fraction. A \<^verbatim>\<open>float\<close> has a significand
  of 24 bits: a natural number below \<open>2 ^ 24\<close> is a \<^verbatim>\<open>float\<close>, and a larger one is rounded to
  the nearest multiple of \<open>2 ^ s\<close>, for the least \<open>s\<close> that leaves 24 bits, the even one of
  two that are equally near. The counts are \<^verbatim>\<open>size_t\<close>, so that nothing here comes near the
  largest \<^verbatim>\<open>float\<close>.
\<close>

function float_exp :: "nat \<Rightarrow> nat" where
  "float_exp n = (if n < 2 ^ 24 then 0 else Suc (float_exp (n div 2)))"
  by pat_completeness auto
termination
  by (relation "measure id") auto

declare float_exp.simps [simp del]

definition to_float :: "nat \<Rightarrow> nat" where
  "to_float n =
     (let s = float_exp n; q = n div 2 ^ s; r = n mod 2 ^ s
      in (if 2 ^ s < 2 * r \<or> (2 * r = 2 ^ s \<and> odd q) then q + 1 else q) * 2 ^ s)"

text \<open>\<^verbatim>\<open>static constexpr float RA_PRIO_HOT_BIAS = 12.0f\<close>.\<close>

definition RA_PRIO_HOT_BIAS :: nat where
  "RA_PRIO_HOT_BIAS = 12"

text \<open>
  The initial state of node \<open>i\<close>. \<^verbatim>\<open>mreg::from_uid\<close> is missing with \<^verbatim>\<open>mreg\<close>; it is the
  parameter \<open>from_uid\<close>. In \<^verbatim>\<open>(reg_use_counter[i] + 1) * RA_PRIO_HOT_BIAS\<close> the count is
  converted to \<^verbatim>\<open>float\<close> and the product is a \<^verbatim>\<open>float\<close>: both steps round. \<open>color\<close> is a
  \<^verbatim>\<open>uint8_t\<close>.
\<close>

definition init_node :: "(nat \<Rightarrow> mreg) \<Rightarrow> nat list \<Rightarrow> nat \<Rightarrow> error + graph_node" where
  "init_node from_uid counter i =
     (if i < length counter then
        Inr \<lparr> vtx = {i},
              priority = real (to_float (to_float (counter ! i + 1) * RA_PRIO_HOT_BIAS)),
              coalescing_hints = [0, 0, 0, 0],
              hint_id = 0,
              color = (if is_phys (from_uid i) then nat \<bar>phys (from_uid i)\<bar> mod 256 else 0),
              is_fp = reg_is_fp (from_uid i),
              spill_slot = 0 \<rparr>
      else Inl OutOfBounds)"

text \<open>
  The count of register \<open>u\<close> as the loop makes it: over all visits of a register with
  that identifier, one for a read, and a hundred for a visit, read or write, in a
  load/store instruction.
\<close>

definition reg_weight :: "minsn \<Rightarrow> nat \<Rightarrow> mreg \<times> bool \<Rightarrow> nat" where
  "reg_weight i u v =
     (case v of (r, is_read) \<Rightarrow>
        if uid r = u then (if is_read then 1 else 0) + (if is_load_store i then 100 else 0)
        else 0)"

definition insn_weight :: "nat \<Rightarrow> minsn \<Rightarrow> nat" where
  "insn_weight u i = sum_list (map (reg_weight i u) (for_each_reg i))"

definition block_weight :: "nat \<Rightarrow> basic_block \<Rightarrow> nat" where
  "block_weight u bb = sum_list (map (insn_weight u) (instructions bb))"

definition use_weight :: "basic_block list \<Rightarrow> nat \<Rightarrow> nat" where
  "use_weight bbs u = sum_list (map (block_weight u) bbs)"

text \<open>
  The count as the specification words it: one for an ordinary read, a hundred for a read
  in a load/store instruction, nothing for a write.
\<close>

definition spec_reg_weight :: "minsn \<Rightarrow> nat \<Rightarrow> mreg \<times> bool \<Rightarrow> nat" where
  "spec_reg_weight i u v =
     (case v of (r, is_read) \<Rightarrow>
        if uid r = u \<and> is_read then (if is_load_store i then 100 else 1) else 0)"

definition spec_use_count :: "basic_block list \<Rightarrow> nat \<Rightarrow> nat" where
  "spec_use_count bbs u =
     sum_list (map (\<lambda>bb. sum_list (map (\<lambda>i. sum_list (map (spec_reg_weight i u) (for_each_reg i)))
                                      (instructions bb))) bbs)"

definition count_at :: "use_state \<Rightarrow> nat \<Rightarrow> nat" where
  "count_at st u = (if u < length (reg_use_counter st) then reg_use_counter st ! u else 0)"

definition use_state_ok :: "use_state \<Rightarrow> bool" where
  "use_state_ok st =
     (length (reg_use_counter st) = max_reg_id st + 1 \<or> (reg_use_counter st = [] \<and> max_reg_id st = 0))"

section \<open>build_graph: liveness analysis\<close>

text \<open>
  The liveness analysis of \<^verbatim>\<open>build_graph\<close>. A bitset indexed by register identifier is the
  set of the identifiers whose bit is set. A successor is a pointer to a block of the same
  procedure in the source and the index of that block here.

  First \<open>def\<close> and \<open>ref\<close> of each block: the callback of the visitor, the loop over the
  instructions, and the four bitsets cleared before.
\<close>

definition def_ref_visit :: "int \<Rightarrow> nat set \<times> nat set \<Rightarrow> mreg \<times> bool \<Rightarrow> nat set \<times> nat set" where
  "def_ref_visit vreg_first dr v =
     (case (dr, v) of ((d, rf), (r, is_read)) \<Rightarrow>
        if is_pseudo vreg_first r then (d, rf)
        else if is_read then (if uid r \<in> d then (d, rf) else (d, insert (uid r) rf))
        else (insert (uid r) d, rf))"

definition block_def_ref :: "int \<Rightarrow> basic_block \<Rightarrow> basic_block" where
  "block_def_ref vreg_first bb =
     (let (d, rf) = foldl (\<lambda>dr i. foldl (def_ref_visit vreg_first) dr (for_each_reg i))
                      ({}, {}) (instructions bb)
      in bb\<lparr> df_def := d, df_ref := rf, df_in_live := {}, df_out_live := {} \<rparr>)"

definition init_liveness :: "int \<Rightarrow> basic_block list \<Rightarrow> basic_block list" where
  "init_liveness vreg_first bbs = map (block_def_ref vreg_first) bbs"

text \<open>
  One block of the \<^verbatim>\<open>do\<close> loop: \<open>new_live\<close> is the union of the in-live sets of the
  successors, less \<open>def\<close>, with \<open>ref\<close>; it replaces the in-live set when it differs.
\<close>

definition new_live :: "basic_block list \<Rightarrow> nat \<Rightarrow> nat set" where
  "new_live bbs b =
     foldl (\<lambda>acc s. acc \<union> df_in_live (bbs ! s)) {} (successors (bbs ! b))
       - df_def (bbs ! b) \<union> df_ref (bbs ! b)"

definition update_in_live :: "bool \<times> basic_block list \<Rightarrow> nat \<Rightarrow> bool \<times> basic_block list" where
  "update_in_live cb b =
     (case cb of (changed, bbs) \<Rightarrow>
        if new_live bbs b \<noteq> df_in_live (bbs ! b)
        then (True, bbs[b := (bbs ! b)\<lparr> df_in_live := new_live bbs b \<rparr>])
        else (changed, bbs))"

definition sweep :: "basic_block list \<Rightarrow> bool \<times> basic_block list" where
  "sweep bbs = foldl update_in_live (False, bbs) [0..<length bbs]"

text \<open>The \<^verbatim>\<open>do ... while (changed)\<close> loop; \<open>None\<close> if it does not end.\<close>

partial_function (option) live_loop :: "basic_block list \<Rightarrow> basic_block list option" where
  "live_loop bbs = (case sweep bbs of (changed, bbs') \<Rightarrow> if changed then live_loop bbs' else Some bbs')"

declare live_loop.simps [code]

text \<open>Convert to out-live: the union over the successors, into the cleared bitset.\<close>

definition set_out_live :: "basic_block list \<Rightarrow> basic_block list" where
  "set_out_live bbs =
     map (\<lambda>b. b\<lparr> df_out_live := foldl (\<lambda>acc s. acc \<union> df_in_live (bbs ! s))
                                    (df_out_live b) (successors b) \<rparr>) bbs"

definition liveness :: "int \<Rightarrow> basic_block list \<Rightarrow> basic_block list option" where
  "liveness vreg_first bbs =
     (case live_loop (init_liveness vreg_first bbs) of
        None \<Rightarrow> None
      | Some bbs' \<Rightarrow> Some (set_out_live bbs'))"

text \<open>
  The successor links are valid when every one of them is a block of the procedure. Two
  lists of blocks have the same frame when they differ in nothing but the in-live sets.
\<close>

definition succ_ok :: "basic_block list \<Rightarrow> bool" where
  "succ_ok bbs = (\<forall>b<length bbs. \<forall>s\<in>set (successors (bbs ! b)). s < length bbs)"

definition same_frame :: "basic_block list \<Rightarrow> basic_block list \<Rightarrow> bool" where
  "same_frame bbs bbs' =
     (length bbs' = length bbs
      \<and> (\<forall>b<length bbs. bbs' ! b = (bbs ! b)\<lparr> df_in_live := df_in_live (bbs' ! b) \<rparr>))"

definition growing :: "nat set \<Rightarrow> basic_block list \<Rightarrow> bool" where
  "growing U bbs =
     (succ_ok bbs
      \<and> (\<forall>b<length bbs. df_in_live (bbs ! b) \<subseteq> new_live bbs b
            \<and> df_in_live (bbs ! b) \<subseteq> U \<and> df_ref (bbs ! b) \<subseteq> U))"

definition missing :: "nat set \<Rightarrow> basic_block list \<Rightarrow> nat" where
  "missing U bbs = (\<Sum>b<length bbs. card (U - df_in_live (bbs ! b)))"

section \<open>allocate_registers: the spill rewriter\<close>

text \<open>
  The spill rewriter of \<^verbatim>\<open>allocate_registers\<close>. \<^verbatim>\<open>struct spill_entry\<close>; an entry whose \<open>src\<close> is
  the null register is free. \<open>slot\<close> is an \<^verbatim>\<open>int32_t\<close>.
\<close>

record spill_entry =
  src :: mreg
  dst :: mreg
  slot :: "32 word"

definition free_entry :: spill_entry where
  "free_entry = \<lparr> src = null_reg, dst = null_reg, slot = 0 \<rparr>"

text \<open>
  What the lambda \<^verbatim>\<open>spill_and_swap\<close> captures by reference and changes: \<^verbatim>\<open>need_cg\<close>,
  \<^verbatim>\<open>num_spill_slots\<close> (an \<^verbatim>\<open>int32_t\<close>) and the two counters of fresh registers of the
  procedure. The flag \<open>reached_unreachable\<close> records that control has arrived at
  \<^verbatim>\<open>assume_unreachable()\<close>.
\<close>

record spill_state =
  need_cg :: bool
  num_spill_slots :: "32 word"
  gp_counter :: nat
  fp_counter :: nat
  reached_unreachable :: bool

text \<open>
  Modelled from the spec: \<^verbatim>\<open>mprocedure::next_gp\<close> and \<^verbatim>\<open>next_fp\<close>, declared with
  \<^verbatim>\<open>mprocedure\<close>, hand out fresh virtual registers from separate counters for the two
  classes. \<open>vreg_gp k\<close> and \<open>vreg_fp k\<close> stand for the \<open>k\<close>-th register of each class.
\<close>

definition next_reg ::
  "(nat \<Rightarrow> mreg) \<Rightarrow> (nat \<Rightarrow> mreg) \<Rightarrow> bool \<Rightarrow> spill_state \<Rightarrow> mreg \<times> spill_state" where
  "next_reg vreg_gp vreg_fp fp st =
     (if fp then (vreg_fp (fp_counter st), st\<lparr> fp_counter := fp_counter st + 1 \<rparr>)
      else (vreg_gp (gp_counter st), st\<lparr> gp_counter := gp_counter st + 1 \<rparr>))"

text \<open>\<^verbatim>\<open>std::max\<close> of two \<^verbatim>\<open>int32_t\<close>: the second one if the first is less, as signed numbers.\<close>

definition max_int32 :: "32 word \<Rightarrow> 32 word \<Rightarrow> 32 word" where
  "max_int32 a b = (if sint a < sint b then b else a)"

text \<open>
  The \<^verbatim>\<open>for\<close> loop of \<^verbatim>\<open>spill_and_swap\<close> over the entries: both \<^verbatim>\<open>break\<close>s and the end of
  the list leave the loop. The parameter \<open>slot\<close> is the \<^verbatim>\<open>int32_t\<close> spill slot of the node,
  passed as a \<^verbatim>\<open>size_t\<close>; \<^verbatim>\<open>slot + slot_offset - 1\<close> is stored in an \<^verbatim>\<open>int32_t\<close>, which keeps
  its low 32 bits.
\<close>

fun place_operand ::
  "(nat \<Rightarrow> mreg) \<Rightarrow> (nat \<Rightarrow> mreg) \<Rightarrow> 32 word \<Rightarrow> int \<Rightarrow> spill_entry list \<Rightarrow> mreg \<Rightarrow> spill_state
     \<Rightarrow> spill_entry list \<times> mreg \<times> spill_state" where
  "place_operand vreg_gp vreg_fp slot_offset sl [] m st = ([], m, st)"
| "place_operand vreg_gp vreg_fp slot_offset sl (entry # rest) m st =
     (if is_null (src entry) then
        (let (d, st1) = next_reg vreg_gp vreg_fp (reg_is_fp m) st;
             entry' = \<lparr> src = m, dst = d, slot = word_of_int sl + slot_offset - 1 \<rparr>
         in (entry' # rest, d,
             st1\<lparr> num_spill_slots := max_int32 (num_spill_slots st1) (slot entry' + 1) \<rparr>))
      else if src entry = m then (entry # rest, dst entry, st)
      else
        (let (rest', m', st') = place_operand vreg_gp vreg_fp slot_offset sl rest m st
         in (entry # rest', m', st')))"

text \<open>
  \<^verbatim>\<open>spill_and_swap(m, list, slot)\<close> up to its last statement: \<^verbatim>\<open>need_cg = true\<close>, the loop,
  and then, on every path out of the loop, the arrival at \<^verbatim>\<open>assume_unreachable()\<close>.
\<close>

definition spill_and_swap ::
  "(nat \<Rightarrow> mreg) \<Rightarrow> (nat \<Rightarrow> mreg) \<Rightarrow> 32 word \<Rightarrow> mreg \<Rightarrow> spill_entry list \<Rightarrow> int \<Rightarrow> spill_state
     \<Rightarrow> spill_entry list \<times> mreg \<times> spill_state" where
  "spill_and_swap vreg_gp vreg_fp slot_offset m list sl st =
     (let (list', m', st') =
            place_operand vreg_gp vreg_fp slot_offset sl list m (st\<lparr> need_cg := True \<rparr>)
      in (list', m', st'\<lparr> reached_unreachable := True \<rparr>))"

text \<open>
  Modelled from the spec: \<^verbatim>\<open>assume_unreachable()\<close>, which the source uses and does not
  define, is an assertion, and a malformed state fails fast by assertion. A call of
  \<^verbatim>\<open>spill_and_swap\<close> that has arrived at it does not return to the callback.
\<close>

definition assume_unreachable ::
  "spill_entry list \<times> mreg \<times> spill_state \<Rightarrow> error + spill_entry list \<times> mreg \<times> spill_state" where
  "assume_unreachable res =
     (if reached_unreachable (snd (snd res)) then Inl Unreachable else Inr res)"

text \<open>Writing through the reference that the visitor hands to its callback.\<close>

fun set_operand_reg :: "moperand \<Rightarrow> mreg \<Rightarrow> moperand" where
  "set_operand_reg (OReg r) m = OReg m"
| "set_operand_reg (OMem b d) m = OMem m d"
| "set_operand_reg x m = x"

fun set_place :: "minsn \<Rightarrow> reg_place \<Rightarrow> mreg \<Rightarrow> minsn" where
  "set_place i (PArg k) m = i\<lparr> arg := (arg i)[k := set_operand_reg (arg i ! k) m] \<rparr>"
| "set_place i POut m = i\<lparr> out := m \<rparr>"

text \<open>
  The state of the rewriting of one instruction: the instruction, \<^verbatim>\<open>reload_list\<close>,
  \<^verbatim>\<open>spill_list\<close> and the captured variables.
\<close>

record rewrite_state =
  insn :: minsn
  reload_list :: "spill_entry list"
  spill_list :: "spill_entry list"
  vars :: spill_state

text \<open>The callback given to \<^verbatim>\<open>for_each_reg\<close>, for the register at one place.\<close>

definition spill_visit ::
  "int \<Rightarrow> (nat \<Rightarrow> mreg) \<Rightarrow> (nat \<Rightarrow> mreg) \<Rightarrow> graph_node list \<Rightarrow> 32 word
     \<Rightarrow> reg_place \<times> mreg \<times> bool \<Rightarrow> rewrite_state \<Rightarrow> error + rewrite_state" where
  "spill_visit vreg_first vreg_gp vreg_fp interference_graph slot_offset v rs =
     (case v of (p, r, is_read) \<Rightarrow>
        if is_pseudo vreg_first r \<or> \<not> is_virt r then Inr rs
        else if length interference_graph \<le> uid r then Inr rs
        else if spill_slot (interference_graph ! uid r) = 0 then Inr rs
        else if is_read then
          (case assume_unreachable
                  (spill_and_swap vreg_gp vreg_fp slot_offset r (reload_list rs)
                     (spill_slot (interference_graph ! uid r)) (vars rs)) of
             Inl e \<Rightarrow> Inl e
           | Inr (l, m, st) \<Rightarrow>
               Inr (rs\<lparr> insn := set_place (insn rs) p m, reload_list := l, vars := st \<rparr>))
        else
          (case assume_unreachable
                  (spill_and_swap vreg_gp vreg_fp slot_offset r (spill_list rs)
                     (spill_slot (interference_graph ! uid r)) (vars rs)) of
             Inl e \<Rightarrow> Inl e
           | Inr (l, m, st) \<Rightarrow>
               Inr (rs\<lparr> insn := set_place (insn rs) p m, spill_list := l, vars := st \<rparr>)))"

text \<open>
  One instruction: four free reload entries, one free spill entry, \<^verbatim>\<open>need_cg = false\<close>, and
  the visit of every operand register.
\<close>

definition spill_insn ::
  "int \<Rightarrow> (nat \<Rightarrow> mreg) \<Rightarrow> (nat \<Rightarrow> mreg) \<Rightarrow> graph_node list \<Rightarrow> 32 word
     \<Rightarrow> minsn \<Rightarrow> spill_state \<Rightarrow> error + rewrite_state" where
  "spill_insn vreg_first vreg_gp vreg_fp interference_graph slot_offset i st =
     fold_err (spill_visit vreg_first vreg_gp vreg_fp interference_graph slot_offset)
       (reg_places i)
       \<lparr> insn = i, reload_list = replicate 4 free_entry, spill_list = replicate 1 free_entry,
         vars = st\<lparr> need_cg := False \<rparr> \<rparr>"

text \<open>
  \<^verbatim>\<open>proc->used_stack_length = ((num_spill_slots + 1) & ~1) * 8\<close>, in \<^verbatim>\<open>int32_t\<close>: the sum and
  the product keep their low 32 bits.
\<close>

definition used_stack_length :: "32 word \<Rightarrow> 32 word" where
  "used_stack_length n = ((n + 1) AND NOT 1) * 8"

section \<open>allocate_registers: the last pass\<close>

text \<open>The predicate given to \<^verbatim>\<open>std::erase_if\<close>.\<close>

definition eliminated_move :: "minsn \<Rightarrow> bool" where
  "eliminated_move i =
     (if vop i = movf \<or> vop i = movi then
        (if is_reg (arg_at i 0) then out i = reg_of (arg_at i 0) else False)
      else False)"

definition remove_eliminated_moves :: "basic_block list \<Rightarrow> basic_block list" where
  "remove_eliminated_moves bbs =
     map (\<lambda>bb. bb\<lparr> instructions := filter (\<lambda>i. \<not> eliminated_move i) (instructions bb) \<rparr>) bbs"

section \<open>Concrete inputs\<close>

text \<open>A general-purpose node with no hints, for the examples below.\<close>

definition gp_node :: "nat set \<Rightarrow> nat \<Rightarrow> graph_node" where
  "gp_node v c =
     \<lparr> vtx = v, priority = 12, coalescing_hints = [0, 0, 0, 0], hint_id = 0,
       color = c, is_fp = False, spill_slot = 0 \<rparr>"

text \<open>
  Two pre-coloured nodes (colours 1 and 2) and one uncoloured node that interferes with
  both of them.
\<close>

definition two_colored_neighbours :: "graph_node list" where
  "two_colored_neighbours = [gp_node {0, 2} 1, gp_node {1, 2} 2, gp_node {0, 1, 2} 0]"

text \<open>
  Fifteen pre-coloured nodes, one for each general-purpose register of the Microsoft x64
  descriptor, and one uncoloured node that interferes with all of them.
\<close>

definition all_gp_taken :: "graph_node list" where
  "all_gp_taken = map (\<lambda>i. gp_node {i, 15} (i + 1)) [0..<15] @ [gp_node {0..<16} 0]"

text \<open>A graph of one uncoloured node with no neighbour: its bitset holds its own bit only.\<close>

definition isolated_node :: "graph_node list" where
  "isolated_node = [gp_node {0} 0]"

definition gp_reg :: "nat \<Rightarrow> mreg" where
  "gp_reg n = \<lparr> uid = n, is_flag = False, is_phys = False, reg_is_fp = False, num = int n \<rparr>"

definition mov_insn :: "mreg \<Rightarrow> mreg \<Rightarrow> minsn" where
  "mov_insn d s = \<lparr> vop = movi, out = d, arg = [OReg s] \<rparr>"

definition block_of :: "minsn list \<Rightarrow> basic_block" where
  "block_of is =
     \<lparr> instructions = is, successors = [], hot = 0,
       df_def = {}, df_ref = {}, df_in_live = {}, df_out_live = {} \<rparr>"

definition weighted_node :: "nat set \<Rightarrow> real \<Rightarrow> graph_node" where
  "weighted_node v p =
     \<lparr> vtx = v, priority = p, coalescing_hints = [0, 0, 0, 0], hint_id = 0,
       color = 0, is_fp = False, spill_slot = 0 \<rparr>"

definition crowded :: "graph_node list" where
  "crowded = [weighted_node {0, 1, 2, 3} 36, weighted_node {0, 1, 2, 3} 24,
              weighted_node {0, 1, 2, 3} 12, weighted_node {0, 1, 2, 3} 48]"

definition colored_pair :: "graph_node list" where
  "colored_pair = [gp_node {0, 1} 1, gp_node {0, 1} 2]"

definition triangle :: "graph_node list" where
  "triangle = [gp_node {0, 1, 2} 0, gp_node {0, 1, 2} 0, gp_node {0, 1, 2} 0]"

definition load_insn :: minsn where
  "load_insn = \<lparr> vop = loadi64, out = gp_reg 2, arg = [OMem (gp_reg 1) 8] \<rparr>"

definition fp_reg :: "nat \<Rightarrow> mreg" where
  "fp_reg n = \<lparr> uid = n, is_flag = False, is_phys = False, reg_is_fp = True, num = int n \<rparr>"

definition start_state :: spill_state where
  "start_state = \<lparr> need_cg = False, num_spill_slots = 0, gp_counter = 200, fp_counter = 300,
                   reached_unreachable = False \<rparr>"

definition add_insn :: minsn where
  "add_insn = \<lparr> vop = other 0, out = gp_reg 5, arg = [OReg (gp_reg 5), OReg (gp_reg 6)] \<rparr>"

definition one_spilled :: "graph_node list" where
  "one_spilled = replicate 5 (gp_node {} 1) @ [(gp_node {} 0)\<lparr> spill_slot := 1 \<rparr>, gp_node {} 2]"

definition loop_blocks :: "basic_block list" where
  "loop_blocks =
     [ (block_of [mov_insn (gp_reg 5) (gp_reg 4)])\<lparr> successors := [1] \<rparr>,
       (block_of [mov_insn (gp_reg 6) (gp_reg 5), mov_insn (gp_reg 5) (gp_reg 7)])\<lparr> successors := [1, 2] \<rparr>,
       (block_of [mov_insn (gp_reg 8) (gp_reg 6)]) ]"

definition loop_blocks_live :: "basic_block list" where
  "loop_blocks_live =
     [ \<lparr> instructions = [mov_insn (gp_reg 5) (gp_reg 4)], successors = [1], hot = 0,
         df_def = {5}, df_ref = {4}, df_in_live = {4, 7}, df_out_live = {5, 7} \<rparr>,
       \<lparr> instructions = [mov_insn (gp_reg 6) (gp_reg 5), mov_insn (gp_reg 5) (gp_reg 7)],
         successors = [1, 2], hot = 0,
         df_def = {5, 6}, df_ref = {5, 7}, df_in_live = {5, 7}, df_out_live = {5, 6, 7} \<rparr>,
       \<lparr> instructions = [mov_insn (gp_reg 8) (gp_reg 6)], successors = [], hot = 0,
         df_def = {8}, df_ref = {6}, df_in_live = {6}, df_out_live = {} \<rparr> ]"

section \<open>Theorems\<close>

subsection \<open>The argument resolver\<close>

text \<open>
  C4. On the Microsoft x64 descriptor the first general-purpose argument is passed in
  \<open>RCX\<close>, the register of virtual index 2. \<^verbatim>\<open>map_argument_native(0, 0, false)\<close> is the
  sentinel \<open>NO_REG\<close>: the comparison \<^verbatim>\<open>std::size(gp_argument) < idx\<close> is false for every
  index of the table, and where it is true the read is past the end of the table.
\<close>

lemma map_argument_native_never_a_register:
  "map_argument_native a g f fp = Inr (invalid a) \<or> map_argument_native a g f fp = Inl OutOfBounds"
  by (simp add: map_argument_native_def table_at_def Let_def)

theorem map_argument_first_gp_is_invalid:
  "map_argument_native ms64 0 0 False = Inr NO_REG
   \<and> table_at (gp_argument ms64) 0 = Inr RCX
   \<and> from_native ms64 RCX = 2
   \<and> map_argument enc ms64 0 0 False = Inr (enc (to_native ms64 (enc NO_REG)))"
  by (simp add: map_argument_native_def map_argument_def table_at_def ms64_def from_native_def
      virtual_to_native_map_def num_fp_reg_def)

subsection \<open>The scan of try_color\<close>

text \<open>
  C3, as the claim states it, fails on a node of degree 0: the graph of one uncoloured
  node without neighbours has no node of nonzero degree, yet the scan picks the node and
  \<^verbatim>\<open>try_color\<close> colours it instead of returning at once.
\<close>

theorem pick_takes_degree_zero_counterexample:
  "popcount (vtx (isolated_node ! 0)) - 1 = 0
   \<and> length isolated_node = 1
   \<and> pick isolated_node 2 2 = Some 0
   \<and> try_color isolated_node 2 2 = Inr ([gp_node {0} 1], 0, 0)"
proof -
  have "try_color isolated_node 2 2 = Inr ([gp_node {0} 1], 0, 0)"
    unfolding isolated_node_def by code_simp
  then show ?thesis
    by (simp add: isolated_node_def gp_node_def pick_def popcount_def)
qed

lemma pick_scan_step:
  "pick_scan gr K M (x # xs) ov =
     (if \<not> candidate (gr ! x) then pick_scan gr K M xs ov
      else if limit_of K M (gr ! x) < degree (gr ! x) then
        (case ov of
           None \<Rightarrow> pick_scan gr K M xs (Some x)
         | Some j \<Rightarrow>
             if priority (gr ! x) < priority (gr ! j) then pick_scan gr K M xs (Some x)
             else pick_scan gr K M xs ov)
      else (Some x, ov))"
  by (simp add: candidate_def degree_def limit_of_def Let_def)

lemma pick_scan_break:
  "i \<in> set xs \<Longrightarrow> candidate (gr ! i) \<Longrightarrow> degree (gr ! i) \<le> limit_of K M (gr ! i) \<Longrightarrow>
   \<exists>j ov'. pick_scan gr K M xs ov = (Some j, ov') \<and> j \<in> set xs \<and> candidate (gr ! j)
      \<and> degree (gr ! j) \<le> limit_of K M (gr ! j)"
proof (induction xs arbitrary: ov)
  case Nil
  then show ?case by simp
next
  case (Cons x xs)
  show ?case
  proof (cases "candidate (gr ! x) \<and> degree (gr ! x) \<le> limit_of K M (gr ! x)")
    case True
    then have "pick_scan gr K M (x # xs) ov = (Some x, ov)"
      by (simp only: pick_scan_step) simp
    with True show ?thesis by simp
  next
    case False
    with Cons.prems have i: "i \<in> set xs" by auto
    from False have "\<exists>ov1. pick_scan gr K M (x # xs) ov = pick_scan gr K M xs ov1"
      by (subst pick_scan_step) (auto split: option.splits)
    then obtain ov1 where "pick_scan gr K M (x # xs) ov = pick_scan gr K M xs ov1" ..
    moreover from Cons.IH [OF i Cons.prems(2,3), of ov1]
    obtain j ov' where "pick_scan gr K M xs ov1 = (Some j, ov')" "j \<in> set xs" "candidate (gr ! j)"
       "degree (gr ! j) \<le> limit_of K M (gr ! j)" by blast
    ultimately show ?thesis by auto
  qed
qed

lemma least_priority_skip:
  "\<not> candidate (gr ! x) \<Longrightarrow> least_priority gr xs ov ov' \<Longrightarrow> least_priority gr (x # xs) ov ov'"
  by (auto simp: least_priority_def split: option.splits)

lemma least_priority_take:
  "candidate (gr ! x) \<Longrightarrow> (\<And>j. ov = Some j \<Longrightarrow> priority (gr ! x) < priority (gr ! j)) \<Longrightarrow>
   least_priority gr xs (Some x) ov' \<Longrightarrow> least_priority gr (x # xs) ov ov'"
  by (cases ov) (auto simp: least_priority_def split: option.splits)

lemma least_priority_keep:
  "candidate (gr ! x) \<Longrightarrow> ov = Some j \<Longrightarrow> priority (gr ! j) \<le> priority (gr ! x) \<Longrightarrow>
   least_priority gr xs ov ov' \<Longrightarrow> least_priority gr (x # xs) ov ov'"
  by (auto simp: least_priority_def split: option.splits)

lemma pick_scan_no_break:
  "\<forall>i\<in>set xs. candidate (gr ! i) \<longrightarrow> limit_of K M (gr ! i) < degree (gr ! i) \<Longrightarrow>
   \<exists>ov'. pick_scan gr K M xs ov = (None, ov') \<and> least_priority gr xs ov ov'"
proof (induction xs arbitrary: ov)
  case Nil
  then show ?case by (cases ov) (auto simp: least_priority_def)
next
  case (Cons x xs)
  have rest: "\<forall>i\<in>set xs. candidate (gr ! i) \<longrightarrow> limit_of K M (gr ! i) < degree (gr ! i)"
    using Cons.prems by simp
  show ?case
  proof (cases "candidate (gr ! x)")
    case False
    then have "pick_scan gr K M (x # xs) ov = pick_scan gr K M xs ov"
      by (simp only: pick_scan_step) simp
    with Cons.IH [OF rest, of ov] False show ?thesis
      by (auto intro: least_priority_skip)
  next
    case True
    with Cons.prems have over: "limit_of K M (gr ! x) < degree (gr ! x)" by simp
    show ?thesis
    proof (cases "\<forall>j. ov = Some j \<longrightarrow> priority (gr ! x) < priority (gr ! j)")
      case True
      with \<open>candidate (gr ! x)\<close> over
      have "pick_scan gr K M (x # xs) ov = pick_scan gr K M xs (Some x)"
        by (simp only: pick_scan_step) (simp split: option.splits)
      with Cons.IH [OF rest, of "Some x"] True \<open>candidate (gr ! x)\<close> show ?thesis
        by (auto intro: least_priority_take)
    next
      case False
      then obtain j where j: "ov = Some j" "priority (gr ! j) \<le> priority (gr ! x)"
        by auto
      with \<open>candidate (gr ! x)\<close> over
      have "pick_scan gr K M (x # xs) ov = pick_scan gr K M xs ov"
        by (simp only: pick_scan_step) simp
      with Cons.IH [OF rest, of ov] j \<open>candidate (gr ! x)\<close> show ?thesis
        by (auto intro: least_priority_keep)
    qed
  qed
qed

text \<open>
  C3, amended. The scan considers the uncoloured nodes with a non-empty bitset
  (\<^verbatim>\<open>popcount(vtx) \<noteq> 0\<close>, so a node of degree 0 is one of them). On a graph where no such
  node has a degree equal to the limit of its class (\<open>K\<close> for GP, \<open>M\<close> for FP): if one of
  them has a degree below its limit, such a node is picked; otherwise, if there is one at
  all, the node picked is over its limit and has the least priority of them; and if
  there is none, nothing is picked and \<^verbatim>\<open>try_color\<close> returns \<open>(0, 0)\<close> with the graph as
  it was.
\<close>

theorem pick_step:
  assumes H: "\<forall>n\<in>set gr. candidate n \<longrightarrow> degree n \<noteq> limit_of K M n"
  shows "if \<exists>n\<in>set gr. candidate n \<and> degree n < limit_of K M n
         then \<exists>it<length gr. pick gr K M = Some it \<and> candidate (gr ! it)
                \<and> degree (gr ! it) < limit_of K M (gr ! it)
         else if \<exists>n\<in>set gr. candidate n
         then \<exists>it<length gr. pick gr K M = Some it \<and> candidate (gr ! it)
                \<and> limit_of K M (gr ! it) < degree (gr ! it)
                \<and> (\<forall>n\<in>set gr. candidate n \<longrightarrow> priority (gr ! it) \<le> priority n)
         else pick gr K M = None \<and> try_color gr K M = Inr (gr, 0, 0)"
proof -
  let ?xs = "[0..<length gr]"
  have nth: "gr ! i \<in> set gr" if "i \<in> set ?xs" for i using that by simp
  show ?thesis
  proof (cases "\<exists>n\<in>set gr. candidate n \<and> degree n < limit_of K M n")
    case True
    then obtain i where i: "i \<in> set ?xs" "candidate (gr ! i)" "degree (gr ! i) \<le> limit_of K M (gr ! i)"
      by (auto simp: in_set_conv_nth)
    from pick_scan_break [OF i, of None]
    obtain j ov' where j: "pick_scan gr K M ?xs None = (Some j, ov')" "j \<in> set ?xs"
      "candidate (gr ! j)" "degree (gr ! j) \<le> limit_of K M (gr ! j)" by blast
    from j(2,3) H nth have "degree (gr ! j) \<noteq> limit_of K M (gr ! j)" by blast
    with j(4) have "degree (gr ! j) < limit_of K M (gr ! j)" by simp
    moreover from j(1) have "pick gr K M = Some j" by (simp add: pick_def)
    ultimately show ?thesis using True j(2,3) by auto
  next
    case False
    have over: "\<forall>i\<in>set ?xs. candidate (gr ! i) \<longrightarrow> limit_of K M (gr ! i) < degree (gr ! i)"
    proof (intro ballI impI)
      fix i assume i: "i \<in> set ?xs" "candidate (gr ! i)"
      with False nth have "\<not> degree (gr ! i) < limit_of K M (gr ! i)" by blast
      moreover from i H nth have "degree (gr ! i) \<noteq> limit_of K M (gr ! i)" by blast
      ultimately show "limit_of K M (gr ! i) < degree (gr ! i)" by simp
    qed
    from pick_scan_no_break [OF over, of None]
    obtain ov' where ov: "pick_scan gr K M ?xs None = (None, ov')" "least_priority gr ?xs None ov'"
      by blast
    then have p: "pick gr K M = ov'" by (simp add: pick_def)
    show ?thesis
    proof (cases "\<exists>n\<in>set gr. candidate n")
      case True
      then obtain i where "i \<in> set ?xs" "candidate (gr ! i)" by (auto simp: in_set_conv_nth)
      with ov(2) obtain m where m: "ov' = Some m" "m \<in> set ?xs" "candidate (gr ! m)"
        "\<forall>i\<in>set ?xs. candidate (gr ! i) \<longrightarrow> priority (gr ! m) \<le> priority (gr ! i)"
        by (cases ov') (auto simp: least_priority_def)
      have "\<forall>n\<in>set gr. candidate n \<longrightarrow> priority (gr ! m) \<le> priority n"
        using m(4) by (auto simp: in_set_conv_nth)
      with m over p True False show ?thesis by auto
    next
      case none: False
      with ov(2) have "ov' = None" by (cases ov') (auto simp: least_priority_def)
      with p have "pick gr K M = None" by simp
      moreover from this have "try_color gr K M = Inr (gr, 0, 0)"
        by (subst try_color.simps) simp
      ultimately show ?thesis using none False by simp
    qed
  qed
qed

lemma candidate_gp_node [simp]: "candidate (gp_node v c) = (c = 0 \<and> card v \<noteq> 0)"
  by (simp add: candidate_def gp_node_def popcount_def)

lemma candidate_weighted_node [simp]: "candidate (weighted_node v p) = (card v \<noteq> 0)"
  by (simp add: candidate_def weighted_node_def popcount_def)

lemma degree_nodes [simp]:
  "degree (gp_node v c) = card v - 1" "degree (weighted_node v p) = card v - 1"
  by (simp_all add: degree_def gp_node_def weighted_node_def popcount_def)

lemma limit_of_nodes [simp]:
  "limit_of K M (gp_node v c) = K" "limit_of K M (weighted_node v p) = K"
  by (simp_all add: limit_of_def gp_node_def weighted_node_def)

theorem pick_step_witness:
  "(\<exists>it<length two_colored_neighbours. pick two_colored_neighbours 3 3 = Some it
      \<and> candidate (two_colored_neighbours ! it)
      \<and> degree (two_colored_neighbours ! it) < limit_of 3 3 (two_colored_neighbours ! it))
   \<and> (\<exists>it<length crowded. pick crowded 1 1 = Some it \<and> candidate (crowded ! it)
      \<and> limit_of 1 1 (crowded ! it) < degree (crowded ! it)
      \<and> (\<forall>n\<in>set crowded. candidate n \<longrightarrow> priority (crowded ! it) \<le> priority n))
   \<and> pick colored_pair 2 2 = None
   \<and> try_color colored_pair 2 2 = Inr (colored_pair, 0, 0)"
proof -
  have a: "\<forall>n\<in>set two_colored_neighbours. candidate n \<longrightarrow> degree n \<noteq> limit_of 3 3 n"
    by (simp add: two_colored_neighbours_def)
  have b: "\<forall>n\<in>set crowded. candidate n \<longrightarrow> degree n \<noteq> limit_of 1 1 n"
    by (simp add: crowded_def)
  have c: "\<forall>n\<in>set colored_pair. candidate n \<longrightarrow> degree n \<noteq> limit_of 2 2 n"
    by (simp add: colored_pair_def)
  have a': "\<exists>n\<in>set two_colored_neighbours. candidate n \<and> degree n < limit_of 3 3 n"
    by (simp add: two_colored_neighbours_def)
  have b': "\<not> (\<exists>n\<in>set crowded. candidate n \<and> degree n < limit_of 1 1 n)"
    "\<exists>n\<in>set crowded. candidate n"
    by (simp_all add: crowded_def)
  have c': "\<not> (\<exists>n\<in>set colored_pair. candidate n)"
    by (simp add: colored_pair_def)
  from c' have c'': "\<not> (\<exists>n\<in>set colored_pair. candidate n \<and> degree n < limit_of 2 2 n)"
    by blast
  from pick_step [OF a] a' pick_step [OF b] b' pick_step [OF c] c' c''
  show ?thesis by (simp only: if_True if_False simp_thms)
qed

subsection \<open>The colours of try_color\<close>

text \<open>
  C2. With \<open>K = 2\<close>, a general-purpose node whose two neighbours hold the colours 1 and 2
  has no colour left in \<open>[1, K]\<close>. \<^verbatim>\<open>try_color\<close> does not spill it: the test is
  \<^verbatim>\<open>n > K\<close> on the zero-based index \<open>n = 2\<close> of the lowest free colour, and the node
  takes the colour \<open>n + 1 = 3\<close>, with no spill counted. With the full budget of the Microsoft
  x64 descriptor, \<open>K = 15\<close>, and all fifteen colours on the neighbours, the node takes the
  colour 16, which \<^verbatim>\<open>to_native\<close> maps to no register.
\<close>

theorem select_gives_color_above_K:
  "try_color two_colored_neighbours 2 2 =
     Inr ([gp_node {0, 2} 1, gp_node {1, 2} 2, gp_node {0, 1, 2} 3], 0, 0)
   \<and> try_color all_gp_taken (num_gp_reg ms64) (num_fp_reg ms64) =
       Inr (map (\<lambda>i. gp_node {i, 15} (i + 1)) [0..<15] @ [gp_node {0..<16} 16], 0, 0)
   \<and> num_gp_reg ms64 = 15
   \<and> to_native ms64 16 = NO_REG"
proof -
  have "try_color two_colored_neighbours 2 2 =
     Inr ([gp_node {0, 2} 1, gp_node {1, 2} 2, gp_node {0, 1, 2} 3], 0, 0)"
    unfolding two_colored_neighbours_def by code_simp
  moreover have "try_color all_gp_taken (num_gp_reg ms64) (num_fp_reg ms64) =
       Inr (map (\<lambda>i. gp_node {i, 15} (i + 1)) [0..<15] @ [gp_node {0..<16} 16], 0, 0)"
    by code_simp
  moreover have "num_gp_reg ms64 = 15 \<and> to_native ms64 16 = NO_REG"
    by (simp add: to_native_def ms64_def virtual_to_native_map_def num_fp_reg_def num_gp_reg_def)
  ultimately show ?thesis by (intro conjI) simp_all
qed

lemma color_bit_Inr: "color_bit c = Inr b \<Longrightarrow> c - 1 < 64 \<and> b = push_bit (c - 1) 1"
  by (auto simp: color_bit_def split: if_splits)

lemma bit_mask_clear:
  "bit (m AND NOT (push_bit n (1 :: 64 word))) k = (bit m k \<and> k \<noteq> n)"
  by (auto simp: bit_simps dest: bit_imp_le_length)

lemma bit_mask_clear_exp:
  "bit (m AND NOT (2 ^ n :: 64 word)) k = (bit m k \<and> k \<noteq> n)"
  using bit_mask_clear [of m n k] by simp

lemma mask_and_bit:
  "n < 64 \<Longrightarrow> m AND push_bit n (1 :: 64 word) \<noteq> 0 \<Longrightarrow> bit m n"
  by (metis and_exp_eq_0_iff_not_bit push_bit_of_1)

lemma countr_zero_le: "countr_zero w \<le> 64"
proof -
  have "length (takeWhile (\<lambda>k. \<not> bit w k) [0..<64]) \<le> length [0..<64]"
    by (rule length_takeWhile_le)
  then show ?thesis by (simp add: countr_zero_def)
qed

lemma countr_zero_bit:
  assumes "countr_zero w < 64"
  shows "bit w (countr_zero w)"
proof -
  let ?P = "\<lambda>k. \<not> bit w k"
  let ?n = "length (takeWhile ?P [0..<64])"
  have n: "?n < length [0..<64]" using assms by (simp add: countr_zero_def)
  then have "\<not> ?P ([0..<64] ! ?n)" by (rule nth_length_takeWhile)
  moreover have "[0..<64] ! ?n = ?n" using n by (simp del: upt_Suc)
  ultimately show ?thesis by (simp add: countr_zero_def)
qed

lemma use_hints_Some:
  "use_hints gr it m hs = Inr (Some c) \<Longrightarrow> c \<noteq> 0 \<and> c - 1 < 64 \<and> bit m (c - 1)"
proof (induction hs)
  case Nil
  then show ?case by simp
next
  case (Cons h hs)
  show ?case
  proof (cases "h = 0")
    case True
    with Cons show ?thesis by simp
  next
    case False
    let ?j = "nat (int it + h)"
    from Cons.prems False have rng: "\<not> (int it + h < 0 \<or> int (length gr) \<le> int it + h)"
      by (auto simp: Let_def split: if_splits)
    show ?thesis
    proof (cases "color (gr ! ?j) \<noteq> 0")
      case False
      with Cons \<open>h \<noteq> 0\<close> rng show ?thesis by (simp add: Let_def)
    next
      case True
      with Cons.prems \<open>h \<noteq> 0\<close> rng obtain b where b: "color_bit (color (gr ! ?j)) = Inr b"
        by (auto simp: Let_def split: sum.splits)
      note cb = color_bit_Inr [OF b]
      show ?thesis
      proof (cases "m AND b \<noteq> 0")
        case True
        with Cons.prems \<open>h \<noteq> 0\<close> rng \<open>color (gr ! ?j) \<noteq> 0\<close> b have "c = color (gr ! ?j)"
          by (simp add: Let_def)
        with True cb \<open>color (gr ! ?j) \<noteq> 0\<close> show ?thesis
          by (auto intro: mask_and_bit)
      next
        case False
        with Cons \<open>h \<noteq> 0\<close> rng \<open>color (gr ! ?j) \<noteq> 0\<close> b show ?thesis
          by (simp add: Let_def)
      qed
    qed
  qed
qed

text \<open>add_back: the graph it returns and the mask it returns.\<close>

lemma add_back_length:
  "add_back it tmp xs gr m = Inr (gr', m') \<Longrightarrow> length gr' = length gr"
proof (induction xs arbitrary: gr m)
  case Nil
  then show ?case by simp
next
  case (Cons x xs)
  show ?case
  proof (cases "x \<in> tmp")
    case False
    with Cons show ?thesis by simp
  next
    case True
    let ?g = "gr[x := (gr ! x)\<lparr> vtx := insert it (vtx (gr ! x)) \<rparr>]"
    from Cons.prems True obtain m1 where "add_back it tmp xs ?g m1 = Inr (gr', m')"
      by (auto simp: Let_def split: if_splits sum.splits)
    from Cons.IH [OF this] show ?thesis by simp
  qed
qed

lemma add_back_nth:
  "add_back it tmp xs gr m = Inr (gr', m') \<Longrightarrow> j < length gr \<Longrightarrow>
   gr' ! j = (if j \<in> set xs \<and> j \<in> tmp then (gr ! j)\<lparr> vtx := insert it (vtx (gr ! j)) \<rparr>
              else gr ! j)"
proof (induction xs arbitrary: gr m)
  case Nil
  then show ?case by simp
next
  case (Cons x xs)
  show ?case
  proof (cases "x \<in> tmp")
    case False
    with Cons.prems have "add_back it tmp xs gr m = Inr (gr', m')" by simp
    from Cons.IH [OF this Cons.prems(2)] False show ?thesis by auto
  next
    case True
    let ?g = "gr[x := (gr ! x)\<lparr> vtx := insert it (vtx (gr ! x)) \<rparr>]"
    from Cons.prems True obtain m1 where r: "add_back it tmp xs ?g m1 = Inr (gr', m')"
      by (auto simp: Let_def split: if_splits sum.splits)
    have "j < length ?g" using Cons.prems(2) by simp
    note ih = Cons.IH [OF r this]
    show ?thesis
    proof (cases "j = x")
      case True
      with ih \<open>x \<in> tmp\<close> Cons.prems(2) show ?thesis by simp
    next
      case False
      with ih Cons.prems(2) show ?thesis by simp
    qed
  qed
qed

lemma add_back_mask_mono:
  "add_back it tmp xs gr m = Inr (gr', m') \<Longrightarrow> bit m' k \<Longrightarrow> bit m k"
proof (induction xs arbitrary: gr m)
  case Nil
  then show ?case by simp
next
  case (Cons x xs)
  show ?case
  proof (cases "x \<in> tmp")
    case False
    with Cons show ?thesis by simp
  next
    case True
    let ?g = "gr[x := (gr ! x)\<lparr> vtx := insert it (vtx (gr ! x)) \<rparr>]"
    show ?thesis
    proof (cases "color (?g ! x) \<noteq> 0 \<and> x \<noteq> it")
      case False
      with Cons.prems True have "add_back it tmp xs ?g m = Inr (gr', m')"
        by (auto simp: Let_def)
      from Cons.IH [OF this Cons.prems(2)] show ?thesis .
    next
      case c: True
      with Cons.prems True obtain b where b: "color_bit (color (?g ! x)) = Inr b"
        and r: "add_back it tmp xs ?g (m AND NOT b) = Inr (gr', m')"
        by (auto simp: Let_def split: sum.splits)
      from Cons.IH [OF r Cons.prems(2)] show ?thesis by (simp add: bit_simps)
    qed
  qed
qed

lemma add_back_mask:
  "add_back it tmp xs gr m = Inr (gr', m') \<Longrightarrow> set xs \<subseteq> {..<length gr} \<Longrightarrow>
   j \<in> set xs \<Longrightarrow> j \<in> tmp \<Longrightarrow> j \<noteq> it \<Longrightarrow> color (gr ! j) \<noteq> 0 \<Longrightarrow>
   color (gr ! j) - 1 < 64 \<and> \<not> bit m' (color (gr ! j) - 1)"
proof (induction xs arbitrary: gr m)
  case Nil
  then show ?case by simp
next
  case (Cons x xs)
  let ?g = "gr[x := (gr ! x)\<lparr> vtx := insert it (vtx (gr ! x)) \<rparr>]"
  have col: "color (?g ! i) = color (gr ! i)" for i
    by (cases "i = x"; cases "x < length gr") (simp_all add: list_update_beyond)
  have sub: "set xs \<subseteq> {..<length ?g}" using Cons.prems(2) by simp
  show ?case
  proof (cases "x \<in> tmp")
    case False
    with Cons.prems have r: "add_back it tmp xs gr m = Inr (gr', m')" and "j \<in> set xs" by auto
    from Cons.IH [OF r _ this(2) Cons.prems(4,5,6)] Cons.prems(2) show ?thesis by simp
  next
    case True
    show ?thesis
    proof (cases "color (?g ! x) \<noteq> 0 \<and> x \<noteq> it")
      case False
      with Cons.prems True have r: "add_back it tmp xs ?g m = Inr (gr', m')"
        by (auto simp: Let_def)
      from False Cons.prems col have "j \<in> set xs" by auto
      from Cons.IH [OF r sub this Cons.prems(4,5)] Cons.prems(6) col show ?thesis by simp
    next
      case c: True
      with Cons.prems True obtain b where b: "color_bit (color (?g ! x)) = Inr b"
        and r: "add_back it tmp xs ?g (m AND NOT b) = Inr (gr', m')"
        by (auto simp: Let_def split: sum.splits)
      show ?thesis
      proof (cases "j = x")
        case True
        from color_bit_Inr [OF b] have "\<not> bit (m AND NOT b) (color (gr ! x) - 1)"
          and "color (gr ! x) - 1 < 64"
          by (simp_all add: col bit_mask_clear_exp)
        with add_back_mask_mono [OF r] True show ?thesis by blast
      next
        case False
        with Cons.prems have "j \<in> set xs" by simp
        from Cons.IH [OF r sub this Cons.prems(4,5)] Cons.prems(6) col show ?thesis by simp
      qed
    qed
  qed
qed

lemma pick_None:
  assumes "pick gr K M = None" "i < length gr"
  shows "\<not> candidate (gr ! i)"
proof
  assume c: "candidate (gr ! i)"
  let ?xs = "[0..<length gr]"
  from assms(2) have i: "i \<in> set ?xs" by simp
  show False
  proof (cases "\<exists>j\<in>set ?xs. candidate (gr ! j) \<and> degree (gr ! j) \<le> limit_of K M (gr ! j)")
    case True
    then obtain j where "j \<in> set ?xs" "candidate (gr ! j)" "degree (gr ! j) \<le> limit_of K M (gr ! j)"
      by blast
    from pick_scan_break [OF this, of None] assms(1) show False
      by (auto simp: pick_def)
  next
    case False
    then have "\<forall>j\<in>set ?xs. candidate (gr ! j) \<longrightarrow> limit_of K M (gr ! j) < degree (gr ! j)"
      by (meson not_le)
    from pick_scan_no_break [OF this, of None]
    obtain ov' where "pick_scan gr K M ?xs None = (None, ov')" "least_priority gr ?xs None ov'"
      by blast
    with assms(1) have "least_priority gr ?xs None None" by (simp add: pick_def)
    with i c show False by (simp add: least_priority_def)
  qed
qed

lemma wf_graph_remove:
  assumes "wf_graph gr" "it < length gr"
  shows "wf_graph (remove_node gr it (vtx (gr ! it)))"
  unfolding wf_graph_def
proof (intro allI impI conjI ballI)
  let ?g = "remove_node gr it (vtx (gr ! it))"
  fix i assume "i < length ?g"
  then have i: "i < length gr" by simp
  from assms(1) i have sub: "vtx (gr ! i) \<subseteq> {..<length gr}" by (simp add: wf_graph_def)
  with i show "vtx (?g ! i) \<subseteq> {..<length ?g}"
    by (auto simp: remove_node_nth)
  fix j assume j: "j \<in> vtx (?g ! i)"
  with i have ne: "i \<noteq> it" and jv: "j \<in> vtx (gr ! i)"
    by (auto simp: remove_node_nth split: if_splits)
  from jv sub have jl: "j < length gr" by auto
  from assms(1) i jv have sym: "i \<in> vtx (gr ! j)" by (simp add: wf_graph_def)
  have "j \<noteq> it"
  proof
    assume "j = it"
    with sym have "i \<in> vtx (gr ! it)" by simp
    with i ne j \<open>j = it\<close> show False by (simp add: remove_node_nth)
  qed
  with jl sym ne show "i \<in> vtx (?g ! j)" by (simp add: remove_node_nth)
qed

lemma remove_node_sub:
  "i < length gr \<Longrightarrow> vtx (remove_node gr it tmp ! i) \<subseteq> vtx (gr ! i)"
  by (auto simp: remove_node_nth)

lemma remove_node_color:
  "i < length gr \<Longrightarrow> color (remove_node gr it tmp ! i) = color (gr ! i)"
  by (simp add: remove_node_nth)

lemma proper_remove:
  assumes "wf_graph gr" "proper gr" "it < length gr"
  shows "proper (remove_node gr it tmp)"
  unfolding proper_def
proof (intro allI impI ballI)
  let ?g = "remove_node gr it tmp"
  fix i j assume i: "i < length ?g" and j: "j \<in> vtx (?g ! i)"
    and c: "j \<noteq> i \<and> color (?g ! i) \<noteq> 0 \<and> color (?g ! j) \<noteq> 0"
  from i have il: "i < length gr" by simp
  from j remove_node_sub [OF il] have jv: "j \<in> vtx (gr ! i)" by blast
  with assms(1) il have jl: "j < length gr" by (auto simp: wf_graph_def)
  from c il jl have "color (gr ! i) \<noteq> 0" "color (gr ! j) \<noteq> 0"
    by (simp_all add: remove_node_color)
  with assms(2) il jv c have "color (gr ! i) \<noteq> color (gr ! j)"
    by (simp add: proper_def)
  with il jl show "color (?g ! i) \<noteq> color (?g ! j)" by (simp add: remove_node_color)
qed

text \<open>The last step of a call: the colour the node ends with.\<close>

lemma select_color_result:
  assumes "select_color g K M it cm rg rf = (g', sg, sf)"
  shows "\<exists>C s. g' = g[it := (g ! it)\<lparr> color := C, spill_slot := s \<rparr>]
          \<and> (C \<noteq> 0 \<longrightarrow> sg = rg \<and> sf = rf \<and> C = countr_zero cm + 1)
          \<and> (C = 0 \<longrightarrow> sg + sf = rg + rf + 1)"
proof (cases "countr_zero cm > (if is_fp (g ! it) then M else K)")
  case True
  with assms have "g' = g[it := (g ! it)\<lparr> color := 0, spill_slot := find_spill_slot g it 1 \<rparr>]"
    and "sg + sf = rg + rf + 1"
    by (auto simp: select_color_def Let_def split: if_splits)
  then show ?thesis by blast
next
  case False
  with assms have "g' = g[it := (g ! it)\<lparr> color := countr_zero cm + 1,
      spill_slot := spill_slot (g ! it) \<rparr>]" and "sg = rg" "sf = rf"
    by (auto simp: select_color_def Let_def split: if_splits)
  then show ?thesis by (intro exI [of _ "countr_zero cm + 1"] exI [of _ "spill_slot (g ! it)"]) simp
qed

lemma last_step:
  assumes h: "use_hints g it cm hs = Inr h"
    and r: "(case h of Some c \<Rightarrow> (g[it := (g ! it)\<lparr> color := c \<rparr>], rg, rf)
             | None \<Rightarrow> select_color g K M it cm rg rf) = (g', sg, sf)"
  shows "\<exists>C s. g' = g[it := (g ! it)\<lparr> color := C, spill_slot := s \<rparr>]
          \<and> (C \<noteq> 0 \<longrightarrow> sg = rg \<and> sf = rf
                \<and> ((C - 1 < 64 \<and> bit cm (C - 1)) \<or> C = countr_zero cm + 1))
          \<and> (C = 0 \<longrightarrow> sg + sf = rg + rf + 1)"
proof (cases h)
  case None
  with r have "select_color g K M it cm rg rf = (g', sg, sf)" by simp
  from select_color_result [OF this]
  obtain C s where "g' = g[it := (g ! it)\<lparr> color := C, spill_slot := s \<rparr>]"
    "C \<noteq> 0 \<longrightarrow> sg = rg \<and> sf = rf \<and> C = countr_zero cm + 1"
    "C = 0 \<longrightarrow> sg + sf = rg + rf + 1" by (elim exE conjE) (rule that, assumption+)
  then show ?thesis by (intro exI [of _ C] exI [of _ s]) simp
next
  case (Some c)
  with h have c: "c \<noteq> 0" "c - 1 < 64" "bit cm (c - 1)"
    using use_hints_Some by blast+
  from Some r have "g' = g[it := (g ! it)\<lparr> color := c, spill_slot := spill_slot (g ! it) \<rparr>]"
    "sg = rg" "sf = rf" by simp_all
  with c show ?thesis
    by (intro exI [of _ c] exI [of _ "spill_slot (g ! it)"]) simp
qed

lemma try_color_Some_unfold:
  assumes p: "pick gr K M = Some it" and r: "try_color gr K M = Inr (gr', sg, sf)"
  shows "\<exists>gr1 rg rf gr2 cm gr3 h.
     try_color (remove_node gr it (vtx (gr ! it))) K M = Inr (gr1, rg, rf)
     \<and> add_back it (vtx (gr ! it)) [0..<length gr1] gr1 (NOT 0) = Inr (gr2, cm)
     \<and> gr3 = gr2[it := (gr2 ! it)\<lparr> vtx := vtx (gr ! it) \<rparr>]
     \<and> use_hints gr3 it cm (coalescing_hints (gr3 ! it)) = Inr h
     \<and> (case h of
           Some c \<Rightarrow> (gr3[it := (gr3 ! it)\<lparr> color := c \<rparr>], rg, rf)
         | None \<Rightarrow> select_color gr3 K M it cm rg rf)
       = (gr', sg, sf)"
proof -
  let ?tmp = "vtx (gr ! it)"
  let ?g0 = "remove_node gr it ?tmp"
  note r0 = r [unfolded try_color.simps [of gr K M] p option.case Let_def]
  from r0 obtain gr1 rg rf where rec: "try_color ?g0 K M = Inr (gr1, rg, rf)"
    by (cases "try_color ?g0 K M") auto
  note r1 = r0 [unfolded rec sum.case prod.case]
  from r1 obtain gr2 cm where ab: "add_back it ?tmp [0..<length gr1] gr1 (NOT 0) = Inr (gr2, cm)"
    by (cases "add_back it ?tmp [0..<length gr1] gr1 (NOT 0)") auto
  note r2 = r1 [unfolded ab sum.case prod.case]
  define gr3 where "gr3 = gr2[it := (gr2 ! it)\<lparr> vtx := ?tmp \<rparr>]"
  note r3 = r2 [folded gr3_def]
  from r3 obtain h where uh: "use_hints gr3 it cm (coalescing_hints (gr3 ! it)) = Inr h"
    by (cases "use_hints gr3 it cm (coalescing_hints (gr3 ! it))") auto
  note r4 = r3 [unfolded uh sum.case]
  have "(case h of Some c \<Rightarrow> (gr3[it := (gr3 ! it)\<lparr> color := c \<rparr>], rg, rf)
         | None \<Rightarrow> select_color gr3 K M it cm rg rf) = (gr', sg, sf)"
    using r4 by (cases h) simp_all
  with rec ab gr3_def uh show ?thesis by blast
qed

lemma try_color_invariant:
  "wf_graph gr \<Longrightarrow> proper gr \<Longrightarrow> try_color gr K M = Inr (gr', sg, sf) \<Longrightarrow>
     length gr' = length gr
     \<and> (\<forall>i<length gr. vtx (gr' ! i) = vtx (gr ! i))
     \<and> (\<forall>i<length gr. color (gr ! i) \<noteq> 0 \<longrightarrow> color (gr' ! i) = color (gr ! i))
     \<and> (sg = 0 \<and> sf = 0 \<longrightarrow> (\<forall>i<length gr. i \<in> vtx (gr ! i) \<longrightarrow> color (gr' ! i) \<noteq> 0))
     \<and> proper gr'"
proof (induction gr K M arbitrary: gr' sg sf rule: try_color.induct)
  case (1 gr K M)
  note wf = \<open>wf_graph gr\<close> and pr = \<open>proper gr\<close>
  show ?case
  proof (cases "pick gr K M")
    case None
    with "1.prems"(3) have eq: "gr' = gr" "sg = 0" "sf = 0"
      by (simp_all add: try_color.simps)
    have "color (gr ! i) \<noteq> 0" if "i < length gr" "i \<in> vtx (gr ! i)" for i
    proof -
      from wf that have "finite (vtx (gr ! i))"
        by (auto simp: wf_graph_def intro: finite_subset)
      with that have "popcount (vtx (gr ! i)) \<noteq> 0" by (auto simp: popcount_def)
      with pick_None [OF None that(1)] show ?thesis by (simp add: candidate_def)
    qed
    with eq pr show ?thesis by simp
  next
    case (Some it)
    let ?n = "length gr"
    let ?tmp = "vtx (gr ! it)"
    let ?g0 = "remove_node gr it ?tmp"
    from pick_eligible [OF Some] have it: "it < ?n" "color (gr ! it) = 0" by auto
    from try_color_Some_unfold [OF Some "1.prems"(3)]
    obtain gr1 rg rf gr2 cm gr3 h where
      rec: "try_color ?g0 K M = Inr (gr1, rg, rf)"
      and ab: "add_back it ?tmp [0..<length gr1] gr1 (NOT 0) = Inr (gr2, cm)"
      and gr3: "gr3 = gr2[it := (gr2 ! it)\<lparr> vtx := ?tmp \<rparr>]"
      and uh: "use_hints gr3 it cm (coalescing_hints (gr3 ! it)) = Inr h"
      and fin: "(case h of Some c \<Rightarrow> (gr3[it := (gr3 ! it)\<lparr> color := c \<rparr>], rg, rf)
                | None \<Rightarrow> select_color gr3 K M it cm rg rf) = (gr', sg, sf)"
      by blast
    have wf0: "wf_graph ?g0" using wf it(1) by (rule wf_graph_remove)
    have pr0: "proper ?g0" using wf pr it(1) by (rule proper_remove)
    from "1.IH" [OF Some refl wf0 pr0 rec]
    have len1: "length gr1 = ?n"
      and vtx1: "\<And>i. i < ?n \<Longrightarrow> vtx (gr1 ! i) = vtx (?g0 ! i)"
      and col1: "\<And>i. i < ?n \<Longrightarrow> color (?g0 ! i) \<noteq> 0 \<Longrightarrow> color (gr1 ! i) = color (?g0 ! i)"
      and all1: "rg = 0 \<and> rf = 0 \<Longrightarrow> (\<And>i. i < ?n \<Longrightarrow> i \<in> vtx (?g0 ! i) \<Longrightarrow> color (gr1 ! i) \<noteq> 0)"
      and pr1: "proper gr1"
      by simp_all
    have tmp_sub: "?tmp \<subseteq> {..<?n}" using wf it(1) by (simp add: wf_graph_def)
    have sym: "\<And>i j. i < ?n \<Longrightarrow> j \<in> vtx (gr ! i) \<Longrightarrow> i \<in> vtx (gr ! j)"
      using wf by (simp add: wf_graph_def)
    have len2: "length gr2 = ?n" using add_back_length [OF ab] len1 by simp
    have nth2: "gr2 ! j = (if j \<in> ?tmp then (gr1 ! j)\<lparr> vtx := insert it (vtx (gr1 ! j)) \<rparr>
                          else gr1 ! j)" if "j < ?n" for j
      using add_back_nth [OF ab, of j] that len1 by simp
    have len3: "length gr3 = ?n" using len2 gr3 by simp
    have col3: "color (gr3 ! j) = color (gr1 ! j)" if "j < ?n" for j
      using that nth2 [OF that] len2 by (cases "j = it") (simp_all add: gr3)
    have vtx3: "vtx (gr3 ! j) = vtx (gr ! j)" if "j < ?n" for j
    proof (cases "j = it")
      case True
      with that len2 show ?thesis by (simp add: gr3)
    next
      case False
      show ?thesis
      proof (cases "j \<in> ?tmp")
        case True
        with sym [OF it(1)] have "it \<in> vtx (gr ! j)" by simp
        then have "insert it (vtx (gr ! j) - {it}) = vtx (gr ! j)" by auto
        with True False that nth2 [OF that] vtx1 [OF that] show ?thesis
          by (simp add: gr3 remove_node_nth)
      next
        case nt: False
        with False that nth2 [OF that] vtx1 [OF that] show ?thesis
          by (simp add: gr3 remove_node_nth)
      qed
    qed
    from last_step [OF uh fin]
    obtain C s where g': "gr' = gr3[it := (gr3 ! it)\<lparr> color := C, spill_slot := s \<rparr>]"
      and Cne: "C \<noteq> 0 \<Longrightarrow> sg = rg \<and> sf = rf
          \<and> ((C - 1 < 64 \<and> bit cm (C - 1)) \<or> C = countr_zero cm + 1)"
      and C0: "C = 0 \<Longrightarrow> sg + sf = rg + rf + 1"
      by (elim exE conjE) (rule that, auto)
    have len': "length gr' = ?n" using g' len3 by simp
    have vtx': "vtx (gr' ! j) = vtx (gr ! j)" if "j < ?n" for j
      using that vtx3 [OF that] len3 by (cases "j = it") (simp_all add: g')
    have col_it: "color (gr' ! it) = C" using it(1) len3 by (simp add: g')
    have col_other: "color (gr' ! j) = color (gr1 ! j)" if "j < ?n" "j \<noteq> it" for j
      using that col3 [OF that(1)] len3 by (simp add: g')
    have key: "color (gr1 ! j) \<noteq> C" if "C \<noteq> 0" "j \<in> ?tmp" "j \<noteq> it" "color (gr1 ! j) \<noteq> 0" for j
    proof -
      from that(2) tmp_sub have jl: "j < ?n" by auto
      then have "j \<in> set [0..<length gr1]" using len1 by simp
      moreover have "set [0..<length gr1] \<subseteq> {..<length gr1}" by auto
      ultimately have b: "color (gr1 ! j) - 1 < 64" "\<not> bit cm (color (gr1 ! j) - 1)"
        using add_back_mask [OF ab _ _ that(2,3,4)] by blast+
      show ?thesis
      proof
        assume e: "color (gr1 ! j) = C"
        from Cne [OF that(1)] consider "bit cm (C - 1)" | "C = countr_zero cm + 1" by blast
        then show False
        proof cases
          case 1
          with b(2) e show False by simp
        next
          case 2
          with b e have "countr_zero cm < 64" "\<not> bit cm (countr_zero cm)" by simp_all
          with countr_zero_bit show False by blast
        qed
      qed
    qed
    have a: "length gr' = ?n" by (fact len')
    have b: "\<forall>i<?n. vtx (gr' ! i) = vtx (gr ! i)" using vtx' by blast
    have c: "\<forall>i<?n. color (gr ! i) \<noteq> 0 \<longrightarrow> color (gr' ! i) = color (gr ! i)"
    proof (intro allI impI)
      fix i assume i: "i < ?n" "color (gr ! i) \<noteq> 0"
      with it(2) have ne: "i \<noteq> it" by auto
      from i have "color (?g0 ! i) = color (gr ! i)" by (simp add: remove_node_color)
      with col1 [OF i(1)] i(2) col_other [OF i(1) ne]
      show "color (gr' ! i) = color (gr ! i)" by simp
    qed
    have e: "sg = 0 \<and> sf = 0 \<longrightarrow> (\<forall>i<?n. i \<in> vtx (gr ! i) \<longrightarrow> color (gr' ! i) \<noteq> 0)"
    proof (intro allI impI)
      fix i assume z: "sg = 0 \<and> sf = 0" and i: "i < ?n" "i \<in> vtx (gr ! i)"
      from z C0 have Cn: "C \<noteq> 0" by auto
      with Cne z have rz: "rg = 0 \<and> rf = 0" by simp
      show "color (gr' ! i) \<noteq> 0"
      proof (cases "i = it")
        case True
        with col_it Cn show ?thesis by simp
      next
        case False
        with i have "i \<in> vtx (?g0 ! i)" by (simp add: remove_node_nth)
        from all1 [OF rz i(1) this] col_other [OF i(1) False] show ?thesis by simp
      qed
    qed
    have f: "proper gr'"
      unfolding proper_def
    proof (intro allI impI ballI)
      fix i j assume i: "i < length gr'" and j: "j \<in> vtx (gr' ! i)"
        and cc: "j \<noteq> i \<and> color (gr' ! i) \<noteq> 0 \<and> color (gr' ! j) \<noteq> 0"
      from i len' have il: "i < ?n" by simp
      from j vtx' [OF il] have jv: "j \<in> vtx (gr ! i)" by simp
      with wf il have jl: "j < ?n" by (auto simp: wf_graph_def)
      from sym [OF il jv] have iv: "i \<in> vtx (gr ! j)" .
      show "color (gr' ! i) \<noteq> color (gr' ! j)"
      proof (cases "i = it")
        case True
        with cc have jn: "j \<noteq> it" by simp
        from True jv have "j \<in> ?tmp" by simp
        from key [OF _ this jn] cc True col_it col_other [OF jl jn] show ?thesis by auto
      next
        case False
        show ?thesis
        proof (cases "j = it")
          case True
          with iv have "i \<in> ?tmp" by simp
          from key [OF _ this False] cc True col_it col_other [OF il False] show ?thesis by auto
        next
          case jn: False
          from jv il False jn have "j \<in> vtx (?g0 ! i)" by (simp add: remove_node_nth)
          with vtx1 [OF il] have "j \<in> vtx (gr1 ! i)" by simp
          with pr1 il len1 cc col_other [OF il False] col_other [OF jl jn]
          show ?thesis by (simp add: proper_def)
        qed
      qed
    qed
    from a b c e f show ?thesis by blast
  qed
qed

text \<open>
  C1. The last call of \<^verbatim>\<open>try_color\<close> in \<^verbatim>\<open>allocate_registers\<close> is the one that reports no
  spill, \<open>(0, 0)\<close>, on a graph as \<^verbatim>\<open>build_graph\<close> makes it: symmetric, with the own bit of
  every node set, and with distinct colours on adjacent pre-coloured nodes. In the graph
  that call leaves, for every edge \<open>(u, v)\<close> between two distinct nodes, either both nodes
  are spilled with distinct slots, or both are coloured and their colours differ.
\<close>

theorem valid_coloring:
  assumes "wf_graph gr" and "\<forall>i<length gr. i \<in> vtx (gr ! i)" and "proper gr"
    and "try_color gr K M = Inr (gr', 0, 0)"
  shows "\<forall>u<length gr'. \<forall>v\<in>vtx (gr' ! u). v \<noteq> u \<longrightarrow>
      (spilled (gr' ! u) \<and> spilled (gr' ! v) \<and> spill_slot (gr' ! u) \<noteq> spill_slot (gr' ! v))
      \<or> (color (gr' ! u) \<noteq> 0 \<and> color (gr' ! v) \<noteq> 0 \<and> color (gr' ! u) \<noteq> color (gr' ! v))"
proof (intro allI impI ballI)
  fix u v assume u: "u < length gr'" and v: "v \<in> vtx (gr' ! u)" and ne: "v \<noteq> u"
  from try_color_invariant [OF assms(1,3,4)]
  have len: "length gr' = length gr"
    and vtx: "\<And>i. i < length gr \<Longrightarrow> vtx (gr' ! i) = vtx (gr ! i)"
    and col: "\<And>i. i < length gr \<Longrightarrow> i \<in> vtx (gr ! i) \<Longrightarrow> color (gr' ! i) \<noteq> 0"
    and pr: "proper gr'"
    by simp_all
  from u len have ul: "u < length gr" by simp
  with v vtx have "v \<in> vtx (gr ! u)" by simp
  with assms(1) ul have vl: "v < length gr" by (auto simp: wf_graph_def)
  from assms(2) ul vl col have "color (gr' ! u) \<noteq> 0" "color (gr' ! v) \<noteq> 0" by simp_all
  moreover from this pr u v ne have "color (gr' ! u) \<noteq> color (gr' ! v)"
    by (simp add: proper_def)
  ultimately show "(spilled (gr' ! u) \<and> spilled (gr' ! v) \<and> spill_slot (gr' ! u) \<noteq> spill_slot (gr' ! v))
      \<or> (color (gr' ! u) \<noteq> 0 \<and> color (gr' ! v) \<noteq> 0 \<and> color (gr' ! u) \<noteq> color (gr' ! v))"
    by simp
qed

lemma try_color_triangle:
  "try_color triangle 3 3 =
     Inr ([gp_node {0, 1, 2} 3, gp_node {0, 1, 2} 2, gp_node {0, 1, 2} 1], 0, 0)"
  unfolding triangle_def by code_simp

lemma wf_triangle: "wf_graph triangle"
  by (simp add: wf_graph_def triangle_def gp_node_def All_less_Suc)

lemma proper_triangle: "proper triangle"
  by (simp add: proper_def triangle_def gp_node_def All_less_Suc)

theorem valid_coloring_witness:
  "try_color triangle 3 3 =
     Inr ([gp_node {0, 1, 2} 3, gp_node {0, 1, 2} 2, gp_node {0, 1, 2} 1], 0, 0)
   \<and> color ([gp_node {0, 1, 2} 3, gp_node {0, 1, 2} 2, gp_node {0, 1, 2} 1] ! 0)
       \<noteq> color ([gp_node {0, 1, 2} 3, gp_node {0, 1, 2} 2, gp_node {0, 1, 2} 1] ! 1)"
proof -
  let ?g = "[gp_node {0, 1, 2} 3, gp_node {0, 1, 2} 2, gp_node {0, 1, 2} 1]"
  have s: "\<forall>i<length triangle. i \<in> vtx (triangle ! i)"
    by (simp add: triangle_def gp_node_def All_less_Suc)
  have u: "(0::nat) < length ?g" by simp
  have v: "(1::nat) \<in> vtx (?g ! 0)" by (simp add: gp_node_def)
  from valid_coloring [OF wf_triangle s proper_triangle try_color_triangle, rule_format, OF u v]
  have "color (?g ! 0) \<noteq> color (?g ! 1)" by (simp add: spilled_def gp_node_def)
  with try_color_triangle show ?thesis by simp
qed

subsection \<open>try_color is defined on the graphs of build_graph\<close>

lemma defined_graph_vtx:
  assumes "defined_graph gr" "length gr' = length gr"
    and "\<And>i. i < length gr \<Longrightarrow> color (gr' ! i) = color (gr ! i)
          \<and> coalescing_hints (gr' ! i) = coalescing_hints (gr ! i)"
  shows "defined_graph gr'"
  using assms by (simp add: defined_graph_def)

lemma defined_graph_remove:
  "defined_graph gr \<Longrightarrow> defined_graph (remove_node gr it tmp)"
  by (rule defined_graph_vtx [where gr = gr]) (simp_all add: remove_node_nth)

lemma add_back_defined:
  "\<forall>i<length gr. color (gr ! i) \<le> 64 \<Longrightarrow> set xs \<subseteq> {..<length gr} \<Longrightarrow>
   \<exists>gr' m'. add_back it tmp xs gr m = Inr (gr', m')"
proof (induction xs arbitrary: gr m)
  case Nil
  then show ?case by simp
next
  case (Cons x xs)
  let ?g = "gr[x := (gr ! x)\<lparr> vtx := insert it (vtx (gr ! x)) \<rparr>]"
  from Cons.prems(2) have x: "x < length gr" and xs: "set xs \<subseteq> {..<length ?g}" by simp_all
  have "color (?g ! i) \<le> 64" if "i < length ?g" for i
    using that Cons.prems(1) by (cases "i = x") simp_all
  then have col: "\<forall>i<length ?g. color (?g ! i) \<le> 64" by blast
  from Cons.prems(1) x have "color (gr ! x) \<le> 64" by simp
  then have cx: "color (gr ! x) - 1 < 64" by arith
  show ?case
  proof (cases "x \<in> tmp")
    case False
    with Cons.IH [OF Cons.prems(1), of m] Cons.prems(2) show ?thesis by simp
  next
    case True
    show ?thesis
    proof (cases "color (?g ! x) \<noteq> 0 \<and> x \<noteq> it")
      case False
      with True Cons.IH [OF col xs, of m] show ?thesis by (auto simp: Let_def)
    next
      case c: True
      from cx x have "color_bit (color (?g ! x)) = Inr (push_bit (color (gr ! x) - 1) 1)"
        by (simp add: color_bit_def)
      with True c Cons.IH [OF col xs, of "m AND NOT (push_bit (color (gr ! x) - 1) 1)"]
      show ?thesis by (auto simp: Let_def)
    qed
  qed
qed

lemma use_hints_defined:
  assumes "\<forall>i<length gr. color (gr ! i) \<le> 64"
    and "\<forall>h\<in>set hs. h \<noteq> 0 \<longrightarrow> 0 \<le> int it + h \<and> int it + h < int (length gr)"
  shows "\<exists>r. use_hints gr it m hs = Inr r"
  using assms(2)
proof (induction hs)
  case Nil
  then show ?case by simp
next
  case (Cons h hs)
  then obtain r where r: "use_hints gr it m hs = Inr r" by auto
  show ?case
  proof (cases "h = 0")
    case True
    with r show ?thesis by simp
  next
    case False
    with Cons.prems have rng: "0 \<le> int it + h" "int it + h < int (length gr)" by simp_all
    then have "nat (int it + h) < length gr" by simp
    with assms(1) have "color (gr ! nat (int it + h)) \<le> 64" by simp
    then have "color_bit (color (gr ! nat (int it + h)))
        = Inr (push_bit (color (gr ! nat (int it + h)) - 1) 1)"
      by (simp add: color_bit_def)
    with False rng r show ?thesis by (simp add: Let_def)
  qed
qed

lemma defined_graph_vtx_color:
  assumes "defined_graph gr" "length gr' = length gr"
    and "\<And>i. i < length gr \<Longrightarrow> color (gr' ! i) \<le> 64
          \<and> coalescing_hints (gr' ! i) = coalescing_hints (gr ! i)"
  shows "defined_graph gr'"
  using assms by (simp add: defined_graph_def)

lemma try_color_length:
  "try_color gr K M = Inr (gr', sg, sf) \<Longrightarrow> length gr' = length gr"
proof (induction gr K M arbitrary: gr' sg sf rule: try_color.induct)
  case (1 gr K M)
  show ?case
  proof (cases "pick gr K M")
    case None
    with "1.prems" show ?thesis by (simp add: try_color.simps)
  next
    case (Some it)
    from try_color_Some_unfold [OF Some "1.prems"]
    obtain gr1 rg rf gr2 cm gr3 h where
      rec: "try_color (remove_node gr it (vtx (gr ! it))) K M = Inr (gr1, rg, rf)"
      and ab: "add_back it (vtx (gr ! it)) [0..<length gr1] gr1 (NOT 0) = Inr (gr2, cm)"
      and gr3: "gr3 = gr2[it := (gr2 ! it)\<lparr> vtx := vtx (gr ! it) \<rparr>]"
      and uh: "use_hints gr3 it cm (coalescing_hints (gr3 ! it)) = Inr h"
      and fin: "(case h of Some c \<Rightarrow> (gr3[it := (gr3 ! it)\<lparr> color := c \<rparr>], rg, rf)
                | None \<Rightarrow> select_color gr3 K M it cm rg rf) = (gr', sg, sf)"
      by blast
    from "1.IH" [OF Some refl rec] have "length gr1 = length gr" by simp
    moreover from add_back_length [OF ab] have "length gr2 = length gr1" .
    moreover from last_step [OF uh fin] have "length gr' = length gr3" by auto
    ultimately show ?thesis by (simp add: gr3)
  qed
qed

lemma select_color_defined:
  assumes "defined_graph g" "it < length g" "K < 64" "M < 64"
  shows "defined_graph (fst (select_color g K M it cm rg rf))"
proof (rule defined_graph_vtx_color [OF assms(1)])
  show "length (fst (select_color g K M it cm rg rf)) = length g"
    by (simp add: select_color_def Let_def)
next
  fix i assume i: "i < length g"
  from assms(1) i have "color (g ! i) \<le> 64" by (simp add: defined_graph_def)
  with assms(3,4) i
  show "color (fst (select_color g K M it cm rg rf) ! i) \<le> 64
     \<and> coalescing_hints (fst (select_color g K M it cm rg rf) ! i) = coalescing_hints (g ! i)"
    by (cases "i = it") (auto simp: select_color_def Let_def)
qed

text \<open>
  On such a graph, with budgets below 64, \<^verbatim>\<open>try_color\<close> runs into no undefined shift and
  no hint outside the graph.
\<close>

lemma try_color_defined:
  "defined_graph gr \<Longrightarrow> K < 64 \<Longrightarrow> M < 64 \<Longrightarrow>
   \<exists>gr' sg sf. try_color gr K M = Inr (gr', sg, sf) \<and> defined_graph gr'"
proof (induction gr K M rule: try_color.induct)
  case (1 gr K M)
  show ?case
  proof (cases "pick gr K M")
    case None
    then have "try_color gr K M = Inr (gr, 0, 0)" by (simp add: try_color.simps)
    with "1.prems"(1) show ?thesis by blast
  next
    case (Some it)
    let ?tmp = "vtx (gr ! it)"
    let ?g0 = "remove_node gr it ?tmp"
    from pick_eligible [OF Some] have it: "it < length gr" by simp
    from "1.IH" [OF Some refl defined_graph_remove [OF "1.prems"(1)] "1.prems"(2,3)]
    obtain gr1 rg rf where rec: "try_color ?g0 K M = Inr (gr1, rg, rf)" and d1: "defined_graph gr1"
      by blast
    from try_color_length [OF rec] have len1: "length gr1 = length gr" by simp
    from d1 have c1: "\<forall>i<length gr1. color (gr1 ! i) \<le> 64" by (simp add: defined_graph_def)
    have "set [0..<length gr1] \<subseteq> {..<length gr1}" by auto
    from add_back_defined [OF c1 this, of it ?tmp "NOT 0"]
    obtain gr2 cm where ab: "add_back it ?tmp [0..<length gr1] gr1 (NOT 0) = Inr (gr2, cm)"
      by (elim exE) (rule that)
    have len2: "length gr2 = length gr1" using add_back_length [OF ab] .
    have d2: "defined_graph gr2"
    proof (rule defined_graph_vtx [OF d1 len2])
      fix i assume "i < length gr1"
      from add_back_nth [OF ab this]
      show "color (gr2 ! i) = color (gr1 ! i)
          \<and> coalescing_hints (gr2 ! i) = coalescing_hints (gr1 ! i)" by simp
    qed
    define gr3 where "gr3 = gr2[it := (gr2 ! it)\<lparr> vtx := ?tmp \<rparr>]"
    have len3: "length gr3 = length gr2" by (simp add: gr3_def)
    have d3: "defined_graph gr3"
    proof (rule defined_graph_vtx [OF d2 len3])
      fix i assume "i < length gr2"
      then show "color (gr3 ! i) = color (gr2 ! i)
          \<and> coalescing_hints (gr3 ! i) = coalescing_hints (gr2 ! i)"
        by (cases "i = it") (simp_all add: gr3_def)
    qed
    from it len1 len2 len3 have it3: "it < length gr3" by simp
    from d3 it3 have c3: "\<forall>i<length gr3. color (gr3 ! i) \<le> 64"
      and h3: "\<forall>h\<in>set (coalescing_hints (gr3 ! it)).
          h \<noteq> 0 \<longrightarrow> 0 \<le> int it + h \<and> int it + h < int (length gr3)"
      by (simp_all add: defined_graph_def)
    from use_hints_defined [OF c3 h3, of cm]
    obtain h where uh: "use_hints gr3 it cm (coalescing_hints (gr3 ! it)) = Inr h" by blast
    have eq: "try_color gr K M =
        Inr (case h of Some c \<Rightarrow> (gr3[it := (gr3 ! it)\<lparr> color := c \<rparr>], rg, rf)
             | None \<Rightarrow> select_color gr3 K M it cm rg rf)"
      unfolding try_color.simps [of gr K M] Some option.case Let_def rec sum.case prod.case ab
        gr3_def [symmetric] uh
      by (cases h) simp_all
    show ?thesis
    proof (cases h)
      case None
      obtain g' sg sf where s: "select_color gr3 K M it cm rg rf = (g', sg, sf)"
        by (cases "select_color gr3 K M it cm rg rf") auto
      from select_color_defined [OF d3 it3 "1.prems"(2,3), of cm rg rf] s
      have "defined_graph g'" by simp
      with eq None s show ?thesis by simp
    next
      case (Some c)
      from use_hints_Some [OF uh [unfolded Some]] have c: "c \<le> 64" by arith
      have "defined_graph (gr3[it := (gr3 ! it)\<lparr> color := c \<rparr>])"
      proof (rule defined_graph_vtx_color [OF d3])
        show "length (gr3[it := (gr3 ! it)\<lparr> color := c \<rparr>]) = length gr3" by simp
      next
        fix i assume i: "i < length gr3"
        from d3 i have "color (gr3 ! i) \<le> 64" by (simp add: defined_graph_def)
        with c i show "color (gr3[it := (gr3 ! it)\<lparr> color := c \<rparr>] ! i) \<le> 64
          \<and> coalescing_hints (gr3[it := (gr3 ! it)\<lparr> color := c \<rparr>] ! i)
              = coalescing_hints (gr3 ! i)"
          by (cases "i = it") simp_all
      qed
      with eq Some show ?thesis by simp
    qed
  qed
qed

subsection \<open>Use counts\<close>

lemma fold_err_sum:
  assumes step: "\<And>x s. x \<in> set xs \<Longrightarrow> I s \<Longrightarrow>
      \<exists>s'. f x s = Inr s' \<and> I s' \<and> (\<forall>u. m s' u = m s u + w x u)"
  shows "I s \<Longrightarrow> \<exists>s'. fold_err f xs s = Inr s' \<and> I s'
            \<and> (\<forall>u. m s' u = m s u + sum_list (map (\<lambda>x. w x u) xs))"
  using step
proof (induction xs arbitrary: s)
  case Nil
  then show ?case by simp
next
  case (Cons x xs)
  from Cons.prems(2) [of x s] Cons.prems(1)
  obtain s1 where s1: "f x s = Inr s1" "I s1" "\<forall>u. m s1 u = m s u + w x u" by auto
  have "\<exists>s'. fold_err f xs s1 = Inr s' \<and> I s'
            \<and> (\<forall>u. m s' u = m s1 u + sum_list (map (\<lambda>x. w x u) xs))"
    using s1(2) Cons.prems(2) by (intro Cons.IH) auto
  then obtain s' where "fold_err f xs s1 = Inr s'" "I s'"
    "\<forall>u. m s' u = m s1 u + sum_list (map (\<lambda>x. w x u) xs)" by blast
  with s1 show ?case by (simp add: add.assoc)
qed

lemma for_each_reg_not_null: "(r, b) \<in> set (for_each_reg i) \<Longrightarrow> uid r \<noteq> 0"
proof -
  have "uid r \<noteq> 0" if "(p, r, b) \<in> set (operand_regs k a)" for p k a
    using that by (cases a) (auto simp: is_null_def split: if_splits)
  then show "(r, b) \<in> set (for_each_reg i) \<Longrightarrow> uid r \<noteq> 0"
    by (fastforce simp: for_each_reg_def reg_places_def is_null_def split: if_splits)
qed

lemma count_at_bump:
  "bump xs u d = Inr ys \<Longrightarrow>
   length ys = length xs \<and> (\<forall>v<length xs. ys ! v = xs ! v + (if v = u then d else 0))"
  by (auto simp: bump_def nth_list_update split: if_splits)

lemma count_reg_ok:
  assumes ok: "use_state_ok st" and nz: "uid r \<noteq> 0"
  shows "\<exists>st'. count_reg i (r, rd) st = Inr st' \<and> use_state_ok st'
           \<and> (\<forall>u. count_at st' u = count_at st u + reg_weight i u (r, rd))"
proof -
  define st1 where "st1 = (if max_reg_id st < uid r
                    then \<lparr> reg_use_counter = resize (reg_use_counter st) (uid r + 1),
                           max_reg_id = uid r \<rparr>
                    else st)"
  have len_le: "length (reg_use_counter st) \<le> max_reg_id st + 1"
    using ok by (auto simp: use_state_ok_def)
  have ok1: "length (reg_use_counter st1) = max_reg_id st1 + 1" and in1: "uid r < length (reg_use_counter st1)"
    using ok nz by (auto simp: st1_def use_state_ok_def resize_def)
  have at1: "count_at st1 u = count_at st u" for u
  proof (cases "max_reg_id st < uid r")
    case False
    then show ?thesis by (simp add: st1_def)
  next
    case True
    with len_le have "length (reg_use_counter st) \<le> uid r + 1" by simp
    then have "resize (reg_use_counter st) (uid r + 1)
        = reg_use_counter st @ replicate (uid r + 1 - length (reg_use_counter st)) 0"
      by (simp add: resize_def)
    with True show ?thesis
      by (auto simp: st1_def count_at_def nth_append)
  qed
  define c1 where "c1 = (if rd then (reg_use_counter st1)[uid r := reg_use_counter st1 ! uid r + 1]
                         else reg_use_counter st1)"
  define c2 where "c2 = (if is_load_store i then c1[uid r := c1 ! uid r + 100] else c1)"
  have b1: "(if rd then bump (reg_use_counter st1) (uid r) 1 else Inr (reg_use_counter st1)) = Inr c1"
    using in1 by (simp add: bump_def c1_def)
  have l1: "length c1 = length (reg_use_counter st1)" by (simp add: c1_def)
  have b2: "(if is_load_store i then bump c1 (uid r) 100 else Inr c1) = Inr c2"
    using in1 l1 by (simp add: bump_def c2_def)
  have l2: "length c2 = length (reg_use_counter st1)" using l1 by (simp add: c2_def)
  have res: "count_reg i (r, rd) st = Inr (st1\<lparr> reg_use_counter := c2 \<rparr>)"
    unfolding count_reg_def prod.case Let_def st1_def [symmetric] b1 sum.case b2 ..
  have "count_at (st1\<lparr> reg_use_counter := c2 \<rparr>) u = count_at st1 u + reg_weight i u (r, rd)" for u
    using in1 l1 by (auto simp: count_at_def c2_def c1_def reg_weight_def nth_list_update)
  with at1 have "\<forall>u. count_at (st1\<lparr> reg_use_counter := c2 \<rparr>) u
      = count_at st u + reg_weight i u (r, rd)" by simp
  moreover have "use_state_ok (st1\<lparr> reg_use_counter := c2 \<rparr>)"
    using ok1 l2 by (simp add: use_state_ok_def)
  ultimately show ?thesis using res by blast
qed

lemma count_insn_ok:
  assumes "use_state_ok st"
  shows "\<exists>st'. count_insn i st = Inr st' \<and> use_state_ok st'
           \<and> (\<forall>u. count_at st' u = count_at st u + insn_weight u i)"
  unfolding count_insn_def insn_weight_def
proof (rule fold_err_sum [where I = use_state_ok and m = count_at and w = "\<lambda>v u. reg_weight i u v"])
  show "use_state_ok st" by fact
next
  fix x s assume "x \<in> set (for_each_reg i)" "use_state_ok s"
  then show "\<exists>s'. count_reg i x s = Inr s' \<and> use_state_ok s'
      \<and> (\<forall>u. count_at s' u = count_at s u + reg_weight i u x)"
    using count_reg_ok [of s "fst x" i "snd x"] for_each_reg_not_null [of "fst x" "snd x" i]
    by simp
qed

lemma count_block_ok:
  assumes "use_state_ok st"
  shows "\<exists>st'. count_block bb st = Inr st' \<and> use_state_ok st'
           \<and> (\<forall>u. count_at st' u = count_at st u + block_weight u bb)"
  unfolding count_block_def block_weight_def
  by (rule fold_err_sum [where I = use_state_ok and m = count_at and w = "\<lambda>i u. insn_weight u i"])
     (use assms count_insn_ok in auto)

lemma count_uses_ok:
  "\<exists>st. count_uses bbs = Inr st \<and> (\<forall>u. count_at st u = use_weight bbs u)"
proof -
  let ?s0 = "\<lparr> reg_use_counter = [], max_reg_id = 0 \<rparr>"
  have "\<exists>s'. fold_err count_block bbs ?s0 = Inr s' \<and> use_state_ok s'
            \<and> (\<forall>u. count_at s' u = count_at ?s0 u + sum_list (map (\<lambda>bb. block_weight u bb) bbs))"
    by (rule fold_err_sum [where I = use_state_ok and m = count_at and w = "\<lambda>bb u. block_weight u bb"])
       (use count_block_ok in \<open>auto simp: use_state_ok_def\<close>)
  then obtain s' where s': "fold_err count_block bbs ?s0 = Inr s'"
    "\<forall>u. count_at s' u = count_at ?s0 u + use_weight bbs u"
    by (auto simp: use_weight_def)
  have z: "count_at ?s0 u = 0" for u by (simp add: count_at_def)
  have k: "count_at (s'\<lparr> max_reg_id := max_reg_id s' + 1 \<rparr>) u = count_at s' u" for u
    by (simp add: count_at_def)
  from s'(2) z k have "\<forall>u. count_at (s'\<lparr> max_reg_id := max_reg_id s' + 1 \<rparr>) u = use_weight bbs u"
    by simp
  with s'(1) show ?thesis by (simp add: count_uses_def)
qed

lemma float_exp_le: "n < 2 ^ (24 + s) \<Longrightarrow> float_exp n \<le> s"
proof (induction s arbitrary: n)
  case 0
  then show ?case by (simp add: float_exp.simps)
next
  case (Suc s)
  show ?case
  proof (cases "n < 2 ^ 24")
    case True
    then show ?thesis by (simp add: float_exp.simps)
  next
    case False
    have "(2::nat) ^ (24 + Suc s) = 2 * 2 ^ (24 + s)" by (simp only: add_Suc_right power_Suc)
    with Suc.prems have "n < 2 * 2 ^ (24 + s)" by (simp only:)
    then have "n div 2 < 2 ^ (24 + s)" by linarith
    from Suc.IH [OF this] False show ?thesis by (subst float_exp.simps) simp
  qed
qed

lemma to_float_exact:
  assumes "2 ^ s dvd n" "n < 2 ^ (24 + s)"
  shows "to_float n = n"
proof -
  from float_exp_le [OF assms(2)] have "(2::nat) ^ float_exp n dvd 2 ^ s"
    by (rule le_imp_power_dvd)
  from this assms(1) have d: "2 ^ float_exp n dvd n" by (rule dvd_trans)
  then have "n mod 2 ^ float_exp n = 0" by simp
  with d show ?thesis by (simp add: to_float_def Let_def)
qed

lemma priority_exact:
  assumes "(c + 1) * 12 \<le> (2::nat) ^ 26"
  shows "to_float (to_float (c + 1) * 12) = (c + 1) * 12"
proof -
  from assms have "c + 1 < 2 ^ (24 + 0)" by simp
  then have a: "to_float (c + 1) = c + 1" by (intro to_float_exact [of 0]) simp_all
  have "(c + 1) * 12 \<noteq> 2 ^ 26"
  proof
    assume e: "(c + 1) * 12 = 2 ^ 26"
    have "(3::nat) dvd (c + 1) * 12" by simp
    then have "(3::nat) dvd 2 ^ 26" unfolding e .
    then show False by simp
  qed
  with assms have lt: "(c + 1) * 12 < 2 ^ (24 + 2)" by simp
  have "(2::nat) ^ 2 dvd (c + 1) * 12" by simp
  from to_float_exact [OF this lt] a show ?thesis by simp
qed

text \<open>
  The product rounds above the bound: a count of 5592406 gives the priority 67108880, where
  \<open>(5592406 + 1) * 12 = 67108884\<close>.
\<close>

lemma priority_rounds:
  "to_float (to_float (5592406 + 1) * RA_PRIO_HOT_BIAS) = 67108880"
proof -
  have a: "float_exp 5592407 = 0" by (simp add: float_exp.simps)
  have b: "to_float (5592406 + 1) = 5592407" by (simp add: to_float_def a)
  have c: "float_exp 67108884 = 3" by (simp add: float_exp.simps)
  have d: "to_float 67108884 = 67108880" by (simp add: to_float_def c)
  show ?thesis unfolding b RA_PRIO_HOT_BIAS_def using d by simp
qed

text \<open>
  C6, amended. The use count of a register identifier is the number of its reads plus a
  hundred for each of its occurrences, read or written, as an operand of a load/store
  instruction (\<open>loadi64\<close>, \<open>storei64\<close>, \<open>loadf64\<close>, \<open>storef64\<close>); the priority of its graph
  node is seeded as the single-precision product \<open>(use_count + 1) \<times> 12.0\<close>, which is
  \<open>(use_count + 1) \<times> 12\<close> exactly as long as that number is at most \<open>2 ^ 26\<close>.
\<close>

theorem use_count_and_priority:
  "\<exists>st. count_uses bbs = Inr st
     \<and> (\<forall>u. count_at st u = use_weight bbs u)
     \<and> (\<forall>u<length (reg_use_counter st).
          reg_use_counter st ! u = use_weight bbs u
          \<and> (\<exists>n. init_node from_uid (reg_use_counter st) u = Inr n
                \<and> priority n = real (to_float (to_float (use_weight bbs u + 1) * 12))
                \<and> ((use_weight bbs u + 1) * 12 \<le> 2 ^ 26
                     \<longrightarrow> priority n = (real (use_weight bbs u) + 1) * 12)))"
proof -
  from count_uses_ok [of bbs] obtain st where st: "count_uses bbs = Inr st"
    "\<forall>u. count_at st u = use_weight bbs u" by blast
  have "reg_use_counter st ! u = use_weight bbs u
          \<and> (\<exists>n. init_node from_uid (reg_use_counter st) u = Inr n
                \<and> priority n = real (to_float (to_float (use_weight bbs u + 1) * 12))
                \<and> ((use_weight bbs u + 1) * 12 \<le> 2 ^ 26
                     \<longrightarrow> priority n = (real (use_weight bbs u) + 1) * 12))"
    if "u < length (reg_use_counter st)" for u
  proof -
    from st(2) that have c: "reg_use_counter st ! u = use_weight bbs u"
      by (auto simp: count_at_def split: if_splits)
    have "real (to_float (to_float (use_weight bbs u + 1) * 12)) = (real (use_weight bbs u) + 1) * 12"
      if "(use_weight bbs u + 1) * 12 \<le> 2 ^ 26"
      using priority_exact [OF that] by simp
    with that c show ?thesis by (simp add: init_node_def RA_PRIO_HOT_BIAS_def)
  qed
  with st show ?thesis by blast
qed

lemma count_uses_load:
  "count_uses [block_of [load_insn]] = Inr \<lparr> reg_use_counter = [0, 101, 100], max_reg_id = 3 \<rparr>"
  by code_simp

text \<open>
  C6, as the claim states it, fails on a register that is only written: in one block with
  the one instruction \<open>r2 = loadi64 [r1 + 8]\<close>, register 2 is never read, so that its count
  is 0 in the words of the claim, and the loop gives it the count 100.
\<close>

theorem write_in_load_counts_counterexample:
  "for_each_reg load_insn = [(gp_reg 1, True), (gp_reg 2, False)]
   \<and> count_uses [block_of [load_insn]] = Inr \<lparr> reg_use_counter = [0, 101, 100], max_reg_id = 3 \<rparr>
   \<and> spec_use_count [block_of [load_insn]] 2 = 0"
proof -
  have a: "for_each_reg load_insn = [(gp_reg 1, True), (gp_reg 2, False)]"
    by (simp add: for_each_reg_def reg_places_def load_insn_def gp_reg_def is_null_def)
  have "spec_use_count [block_of [load_insn]] 2 = 0"
    by (simp add: spec_use_count_def block_of_def a spec_reg_weight_def gp_reg_def)
  with a count_uses_load show ?thesis by simp
qed

theorem use_count_and_priority_witness:
  "count_uses [block_of [load_insn]] = Inr \<lparr> reg_use_counter = [0, 101, 100], max_reg_id = 3 \<rparr>
   \<and> use_weight [block_of [load_insn]] 2 = 100
   \<and> (use_weight [block_of [load_insn]] 2 + 1) * 12 \<le> 2 ^ 26
   \<and> (\<exists>n. init_node gp_reg [0, 101, 100] 2 = Inr n \<and> priority n = 1212)"
proof -
  from use_count_and_priority [of "[block_of [load_insn]]" gp_reg]
  obtain st where st: "count_uses [block_of [load_insn]] = Inr st"
    and w: "\<forall>u<length (reg_use_counter st).
          reg_use_counter st ! u = use_weight [block_of [load_insn]] u
          \<and> (\<exists>n. init_node gp_reg (reg_use_counter st) u = Inr n
                \<and> priority n = real (to_float (to_float (use_weight [block_of [load_insn]] u + 1) * 12))
                \<and> ((use_weight [block_of [load_insn]] u + 1) * 12 \<le> 2 ^ 26
                     \<longrightarrow> priority n = (real (use_weight [block_of [load_insn]] u) + 1) * 12))"
    by blast
  from st count_uses_load have e: "st = \<lparr> reg_use_counter = [0, 101, 100], max_reg_id = 3 \<rparr>"
    by simp
  have "(2::nat) < length (reg_use_counter st)" by (simp add: e)
  from w [rule_format, OF this] have
    c: "use_weight [block_of [load_insn]] 2 = 100"
    and n: "\<exists>n. init_node gp_reg [0, 101, 100] 2 = Inr n
          \<and> ((use_weight [block_of [load_insn]] 2 + 1) * 12 \<le> 2 ^ 26
               \<longrightarrow> priority n = (real (use_weight [block_of [load_insn]] 2) + 1) * 12)"
    by (auto simp: e)
  from c n count_uses_load show ?thesis by auto
qed

subsection \<open>Liveness analysis\<close>

lemma foldl_union: "foldl (\<lambda>acc s. acc \<union> f s) A xs = A \<union> (\<Union>s\<in>set xs. f s)"
  by (induction xs arbitrary: A) auto

lemma new_live_eq:
  "new_live bbs b =
     ((\<Union>s\<in>set (successors (bbs ! b)). df_in_live (bbs ! s)) - df_def (bbs ! b)) \<union> df_ref (bbs ! b)"
  by (simp add: new_live_def foldl_union)

lemma same_frame_refl [simp]: "same_frame bbs bbs"
  by (simp add: same_frame_def)

lemma same_frame_fields:
  assumes "same_frame bbs bbs'" "b < length bbs"
  shows "successors (bbs' ! b) = successors (bbs ! b)" "df_def (bbs' ! b) = df_def (bbs ! b)"
    "df_ref (bbs' ! b) = df_ref (bbs ! b)" "df_out_live (bbs' ! b) = df_out_live (bbs ! b)"
    "instructions (bbs' ! b) = instructions (bbs ! b)" "hot (bbs' ! b) = hot (bbs ! b)"
proof -
  from assms have e: "bbs' ! b = (bbs ! b)\<lparr> df_in_live := df_in_live (bbs' ! b) \<rparr>"
    by (simp add: same_frame_def)
  show "successors (bbs' ! b) = successors (bbs ! b)" by (subst e) simp
  show "df_def (bbs' ! b) = df_def (bbs ! b)" by (subst e) simp
  show "df_ref (bbs' ! b) = df_ref (bbs ! b)" by (subst e) simp
  show "df_out_live (bbs' ! b) = df_out_live (bbs ! b)" by (subst e) simp
  show "instructions (bbs' ! b) = instructions (bbs ! b)" by (subst e) simp
  show "hot (bbs' ! b) = hot (bbs ! b)" by (subst e) simp
qed

lemma same_frame_trans:
  assumes "same_frame a b" "same_frame b c"
  shows "same_frame a c"
  unfolding same_frame_def
proof (intro conjI allI impI)
  from assms show len: "length c = length a" by (simp add: same_frame_def)
  fix i assume i: "i < length a"
  with assms have 1: "b ! i = (a ! i)\<lparr> df_in_live := df_in_live (b ! i) \<rparr>"
    and 2: "c ! i = (b ! i)\<lparr> df_in_live := df_in_live (c ! i) \<rparr>"
    by (simp_all add: same_frame_def)
  show "c ! i = (a ! i)\<lparr> df_in_live := df_in_live (c ! i) \<rparr>"
    by (subst 2, subst 1) simp
qed

lemma same_frame_update:
  "b < length bbs \<Longrightarrow> same_frame bbs (bbs[b := (bbs ! b)\<lparr> df_in_live := X \<rparr>])"
  by (simp add: same_frame_def nth_list_update)

lemma succ_ok_frame:
  assumes "succ_ok bbs" "same_frame bbs bbs'"
  shows "succ_ok bbs'"
  unfolding succ_ok_def
proof (intro allI impI ballI)
  fix b s assume b: "b < length bbs'" and s: "s \<in> set (successors (bbs' ! b))"
  from assms(2) have len: "length bbs' = length bbs" by (simp add: same_frame_def)
  with b same_frame_fields(1) [OF assms(2)] s have "s \<in> set (successors (bbs ! b))" by simp
  with assms(1) b len show "s < length bbs'" by (simp add: succ_ok_def)
qed

text \<open>Replacing an in-live set by a larger one makes no \<open>new_live\<close> smaller.\<close>

lemma new_live_mono:
  assumes ok: "succ_ok bbs" and b: "b < length bbs" and sub: "df_in_live (bbs ! b) \<subseteq> X"
    and c: "c < length bbs"
  shows "new_live bbs c \<subseteq> new_live (bbs[b := (bbs ! b)\<lparr> df_in_live := X \<rparr>]) c"
proof -
  let ?g = "bbs[b := (bbs ! b)\<lparr> df_in_live := X \<rparr>]"
  have f: "same_frame bbs ?g" using b by (rule same_frame_update)
  have live: "df_in_live (bbs ! s) \<subseteq> df_in_live (?g ! s)" if "s < length bbs" for s
    using that sub by (cases "s = b") (simp_all add: nth_list_update)
  have "(\<Union>s\<in>set (successors (bbs ! c)). df_in_live (bbs ! s))
      \<subseteq> (\<Union>s\<in>set (successors (bbs ! c)). df_in_live (?g ! s))"
  proof (rule UN_mono [OF subset_refl])
    fix s assume "s \<in> set (successors (bbs ! c))"
    with ok c have "s < length bbs" by (simp add: succ_ok_def)
    then show "df_in_live (bbs ! s) \<subseteq> df_in_live (?g ! s)" by (rule live)
  qed
  then show ?thesis
    unfolding new_live_eq same_frame_fields(1,2,3) [OF f c] by blast
qed

lemma update_in_live_step:
  assumes fin: "finite U" and g: "growing U bbs" and b: "b < length bbs"
    and u: "update_in_live (ch, bbs) b = (ch', bbs')"
  shows "growing U bbs' \<and> same_frame bbs bbs'
     \<and> (if new_live bbs b = df_in_live (bbs ! b) then ch' = ch \<and> bbs' = bbs
         else ch' \<and> missing U bbs' < missing U bbs)"
proof (cases "new_live bbs b = df_in_live (bbs ! b)")
  case True
  with u have "ch' = ch" "bbs' = bbs" by (simp_all add: update_in_live_def)
  with g True show ?thesis by simp
next
  case False
  let ?X = "new_live bbs b"
  from g have ok: "succ_ok bbs"
    and inv: "\<And>c. c < length bbs \<Longrightarrow> df_in_live (bbs ! c) \<subseteq> new_live bbs c
        \<and> df_in_live (bbs ! c) \<subseteq> U \<and> df_ref (bbs ! c) \<subseteq> U"
    by (simp_all add: growing_def)
  from u False have ch': "ch'" and bbs': "bbs' = bbs[b := (bbs ! b)\<lparr> df_in_live := ?X \<rparr>]"
    by (simp_all add: update_in_live_def)
  have f: "same_frame bbs bbs'" unfolding bbs' using b by (rule same_frame_update)
  have len: "length bbs' = length bbs" by (simp add: bbs')
  have sub: "df_in_live (bbs ! b) \<subseteq> ?X" using inv [OF b] by simp
  have XU: "?X \<subseteq> U"
  proof -
    have "(\<Union>s\<in>set (successors (bbs ! b)). df_in_live (bbs ! s)) \<subseteq> U"
    proof (rule UN_least)
      fix s assume "s \<in> set (successors (bbs ! b))"
      with ok b have "s < length bbs" by (simp add: succ_ok_def)
      with inv show "df_in_live (bbs ! s) \<subseteq> U" by simp
    qed
    with inv [OF b] show ?thesis unfolding new_live_eq by blast
  qed
  have live': "df_in_live (bbs' ! c) = (if c = b then ?X else df_in_live (bbs ! c))"
    if "c < length bbs" for c using that by (simp add: bbs' nth_list_update)
  have "growing U bbs'"
    unfolding growing_def
  proof (intro conjI allI impI)
    show "succ_ok bbs'" using ok f by (rule succ_ok_frame)
  next
    fix c assume "c < length bbs'"
    with len have c: "c < length bbs" by simp
    have m: "new_live bbs c \<subseteq> new_live bbs' c"
      unfolding bbs' using ok b sub c by (rule new_live_mono)
    show "df_in_live (bbs' ! c) \<subseteq> new_live bbs' c"
      using m inv [OF c] live' [OF c] by (cases "c = b") auto
    show "df_in_live (bbs' ! c) \<subseteq> U"
      using XU inv [OF c] live' [OF c] by (cases "c = b") auto
    show "df_ref (bbs' ! c) \<subseteq> U"
      using inv [OF c] same_frame_fields(3) [OF f c] by simp
  qed
  moreover have "missing U bbs' < missing U bbs"
    unfolding missing_def len
  proof (rule sum_strict_mono_ex1)
    show "finite {..<length bbs}" by simp
    show "\<forall>c\<in>{..<length bbs}. card (U - df_in_live (bbs' ! c)) \<le> card (U - df_in_live (bbs ! c))"
    proof
      fix c assume "c \<in> {..<length bbs}"
      then have c: "c < length bbs" by simp
      have "U - df_in_live (bbs' ! c) \<subseteq> U - df_in_live (bbs ! c)"
        using live' [OF c] sub by (cases "c = b") auto
      then show "card (U - df_in_live (bbs' ! c)) \<le> card (U - df_in_live (bbs ! c))"
        using fin by (intro card_mono) auto
    qed
    have "U - ?X \<subset> U - df_in_live (bbs ! b)"
      using sub False XU by blast
    then have "card (U - ?X) < card (U - df_in_live (bbs ! b))"
      using fin by (intro psubset_card_mono) auto
    with live' [OF b]
    have "card (U - df_in_live (bbs' ! b)) < card (U - df_in_live (bbs ! b))" by simp
    with b
    show "\<exists>c\<in>{..<length bbs}. card (U - df_in_live (bbs' ! c)) < card (U - df_in_live (bbs ! c))"
      by (intro bexI [of _ b]) simp_all
  qed
  ultimately show ?thesis using f ch' False by simp
qed

lemma sweep_prefix:
  assumes fin: "finite U" and g: "growing U bbs"
  shows "k \<le> length bbs \<Longrightarrow>
     \<exists>ch bs. foldl update_in_live (False, bbs) [0..<k] = (ch, bs)
       \<and> growing U bs \<and> same_frame bbs bs
       \<and> (if ch then missing U bs < missing U bbs
           else bs = bbs \<and> (\<forall>b<k. new_live bbs b = df_in_live (bbs ! b)))"
proof (induction k)
  case 0
  with g show ?case by (intro exI [of _ False] exI [of _ bbs]) simp
next
  case (Suc k)
  then obtain ch bs where r: "foldl update_in_live (False, bbs) [0..<k] = (ch, bs)"
    and gb: "growing U bs" and f: "same_frame bbs bs"
    and c: "if ch then missing U bs < missing U bbs
            else bs = bbs \<and> (\<forall>b<k. new_live bbs b = df_in_live (bbs ! b))"
    by auto
  from f have len: "length bs = length bbs" by (simp add: same_frame_def)
  with Suc.prems have k: "k < length bs" by simp
  obtain ch' bs' where u: "update_in_live (ch, bs) k = (ch', bs')"
    by (cases "update_in_live (ch, bs) k") auto
  from update_in_live_step [OF fin gb k u]
  have gb': "growing U bs'" and f': "same_frame bs bs'"
    and c': "if new_live bs k = df_in_live (bs ! k) then ch' = ch \<and> bs' = bs
             else ch' \<and> missing U bs' < missing U bs"
    by simp_all
  have res: "foldl update_in_live (False, bbs) [0..<Suc k] = (ch', bs')"
    using r u by simp
  have "if ch' then missing U bs' < missing U bbs
        else bs' = bbs \<and> (\<forall>b<Suc k. new_live bbs b = df_in_live (bbs ! b))"
  proof (cases ch)
    case True
    with c c' show ?thesis by (auto split: if_splits)
  next
    case False
    with c have e: "bs = bbs" "\<forall>b<k. new_live bbs b = df_in_live (bbs ! b)" by simp_all
    with c' False show ?thesis by (auto simp: less_Suc_eq split: if_splits)
  qed
  with res gb' same_frame_trans [OF f f'] show ?case by blast
qed

lemma sweep_step:
  assumes "finite U" "growing U bbs" "sweep bbs = (ch, bs)"
  shows "growing U bs \<and> same_frame bbs bs
       \<and> (if ch then missing U bs < missing U bbs
           else bs = bbs \<and> (\<forall>b<length bbs. new_live bbs b = df_in_live (bbs ! b)))"
  using sweep_prefix [OF assms(1,2), of "length bbs"] assms(3) by (auto simp: sweep_def)

lemma live_loop_total:
  assumes fin: "finite U"
  shows "growing U bbs \<Longrightarrow>
     \<exists>r. live_loop bbs = Some r \<and> same_frame bbs r
       \<and> (\<forall>b<length r. new_live r b = df_in_live (r ! b))"
proof (induction "missing U bbs" arbitrary: bbs rule: less_induct)
  case less
  obtain ch bs where s: "sweep bbs = (ch, bs)" by (cases "sweep bbs") auto
  note st = sweep_step [OF fin less.prems s]
  show ?case
  proof (cases ch)
    case True
    with st have "missing U bs < missing U bbs" "growing U bs" "same_frame bbs bs" by simp_all
    from less.hyps [OF this(1,2)] obtain r where "live_loop bs = Some r" "same_frame bs r"
      "\<forall>b<length r. new_live r b = df_in_live (r ! b)" by blast
    moreover from s True have "live_loop bbs = live_loop bs"
      by (subst live_loop.simps) simp
    ultimately show ?thesis using same_frame_trans [OF \<open>same_frame bbs bs\<close>] by auto
  next
    case False
    with st have "bs = bbs" "\<forall>b<length bbs. new_live bbs b = df_in_live (bbs ! b)" by simp_all
    moreover from s False have "live_loop bbs = Some bs"
      by (subst live_loop.simps) simp
    ultimately show ?thesis by simp
  qed
qed

lemma def_ref_visit_finite:
  "finite (fst dr) \<and> finite (snd dr) \<Longrightarrow>
   finite (fst (def_ref_visit vreg_first dr v)) \<and> finite (snd (def_ref_visit vreg_first dr v))"
  by (cases dr; cases v) (simp add: def_ref_visit_def)

lemma foldl_def_ref_visit_finite:
  "finite (fst dr) \<and> finite (snd dr) \<Longrightarrow>
   finite (fst (foldl (def_ref_visit vreg_first) dr vs))
   \<and> finite (snd (foldl (def_ref_visit vreg_first) dr vs))"
  by (induction vs arbitrary: dr) (simp_all add: def_ref_visit_finite)

lemma foldl_insns_finite:
  "finite (fst dr) \<and> finite (snd dr) \<Longrightarrow>
   finite (fst (foldl (\<lambda>dr i. foldl (def_ref_visit vreg_first) dr (for_each_reg i)) dr is))
   \<and> finite (snd (foldl (\<lambda>dr i. foldl (def_ref_visit vreg_first) dr (for_each_reg i)) dr is))"
  by (induction "is" arbitrary: dr) (simp_all add: foldl_def_ref_visit_finite)

lemma block_def_ref_fields [simp]:
  "successors (block_def_ref vreg_first bb) = successors bb"
  "instructions (block_def_ref vreg_first bb) = instructions bb"
  "hot (block_def_ref vreg_first bb) = hot bb"
  "df_in_live (block_def_ref vreg_first bb) = {}"
  "df_out_live (block_def_ref vreg_first bb) = {}"
  by (simp_all add: block_def_ref_def split: prod.splits)

lemma finite_df_ref_block: "finite (df_ref (block_def_ref vreg_first bb))"
  using foldl_insns_finite [of "({}, {})" vreg_first "instructions bb"]
  by (auto simp: block_def_ref_def split: prod.splits)

lemma growing_init:
  assumes "succ_ok bbs"
  shows "growing (\<Union>b<length bbs. df_ref (init_liveness vreg_first bbs ! b)) (init_liveness vreg_first bbs)"
  unfolding growing_def
proof (intro conjI allI impI)
  show "succ_ok (init_liveness vreg_first bbs)"
    using assms by (simp add: succ_ok_def init_liveness_def)
next
  fix b assume "b < length (init_liveness vreg_first bbs)"
  then have b: "b < length bbs" by (simp add: init_liveness_def)
  then show "df_in_live (init_liveness vreg_first bbs ! b) \<subseteq> new_live (init_liveness vreg_first bbs) b"
    and "df_in_live (init_liveness vreg_first bbs ! b)
        \<subseteq> (\<Union>b<length bbs. df_ref (init_liveness vreg_first bbs ! b))"
    by (simp_all add: init_liveness_def)
  from b show "df_ref (init_liveness vreg_first bbs ! b)
        \<subseteq> (\<Union>b<length bbs. df_ref (init_liveness vreg_first bbs ! b))"
    by blast
qed

lemma live_loop_init:
  assumes "succ_ok bbs"
  shows "\<exists>r. live_loop (init_liveness vreg_first bbs) = Some r
       \<and> same_frame (init_liveness vreg_first bbs) r
       \<and> (\<forall>b<length r. new_live r b = df_in_live (r ! b))"
proof (rule live_loop_total [OF _ growing_init [OF assms]])
  show "finite (\<Union>b<length bbs. df_ref (init_liveness vreg_first bbs ! b))"
    by (auto simp: init_liveness_def finite_df_ref_block)
qed

lemma liveness_result:
  assumes "succ_ok bbs"
  shows "\<exists>r. liveness vreg_first bbs = Some (set_out_live r)
       \<and> same_frame (init_liveness vreg_first bbs) r
       \<and> (\<forall>b<length r. new_live r b = df_in_live (r ! b))"
proof -
  from live_loop_init [OF assms, of vreg_first] obtain r where
    "live_loop (init_liveness vreg_first bbs) = Some r"
    "same_frame (init_liveness vreg_first bbs) r"
    "\<forall>b<length r. new_live r b = df_in_live (r ! b)" by blast
  then show ?thesis by (auto simp: liveness_def)
qed

lemma set_out_live_nth:
  "b < length r \<Longrightarrow>
   set_out_live r ! b =
     (r ! b)\<lparr> df_out_live := df_out_live (r ! b) \<union> (\<Union>s\<in>set (successors (r ! b)). df_in_live (r ! s)) \<rparr>"
  by (simp add: set_out_live_def foldl_union)

lemma length_set_out_live [simp]: "length (set_out_live r) = length r"
  by (simp add: set_out_live_def)

lemma length_init_liveness [simp]: "length (init_liveness vreg_first bbs) = length bbs"
  by (simp add: init_liveness_def)

text \<open>The blocks that the analysis returns, field by field.\<close>

lemma liveness_blocks:
  assumes "succ_ok bbs"
  shows "\<exists>bbs'. liveness vreg_first bbs = Some bbs' \<and> length bbs' = length bbs
     \<and> (\<forall>b<length bbs.
          instructions (bbs' ! b) = instructions (bbs ! b)
          \<and> successors (bbs' ! b) = successors (bbs ! b)
          \<and> hot (bbs' ! b) = hot (bbs ! b)
          \<and> df_def (bbs' ! b) = df_def (block_def_ref vreg_first (bbs ! b))
          \<and> df_ref (bbs' ! b) = df_ref (block_def_ref vreg_first (bbs ! b))
          \<and> df_out_live (bbs' ! b) = (\<Union>s\<in>set (successors (bbs' ! b)). df_in_live (bbs' ! s))
          \<and> df_in_live (bbs' ! b)
              = (df_out_live (bbs' ! b) - df_def (bbs' ! b)) \<union> df_ref (bbs' ! b))"
proof -
  let ?init = "init_liveness vreg_first bbs"
  from liveness_result [OF assms, of vreg_first] obtain r where
    res: "liveness vreg_first bbs = Some (set_out_live r)"
    and f: "same_frame ?init r"
    and fp: "\<forall>b<length r. new_live r b = df_in_live (r ! b)" by blast
  from f have len: "length r = length bbs" by (simp add: same_frame_def)
  have ok: "succ_ok r"
    using assms f by (intro succ_ok_frame [OF _ f]) (simp add: succ_ok_def init_liveness_def)
  have "instructions (set_out_live r ! b) = instructions (bbs ! b)
          \<and> successors (set_out_live r ! b) = successors (bbs ! b)
          \<and> hot (set_out_live r ! b) = hot (bbs ! b)
          \<and> df_def (set_out_live r ! b) = df_def (block_def_ref vreg_first (bbs ! b))
          \<and> df_ref (set_out_live r ! b) = df_ref (block_def_ref vreg_first (bbs ! b))
          \<and> df_out_live (set_out_live r ! b)
              = (\<Union>s\<in>set (successors (set_out_live r ! b)). df_in_live (set_out_live r ! s))
          \<and> df_in_live (set_out_live r ! b)
              = (df_out_live (set_out_live r ! b) - df_def (set_out_live r ! b))
                \<union> df_ref (set_out_live r ! b)"
    if b: "b < length bbs" for b
  proof -
    from b have bi: "b < length ?init" by simp
    from b len have br: "b < length r" by simp
    note fl = same_frame_fields [OF f bi]
    have init_b: "?init ! b = block_def_ref vreg_first (bbs ! b)"
      using b by (simp add: init_liveness_def)
    have succ_in: "df_in_live (set_out_live r ! s) = df_in_live (r ! s)"
      if "s \<in> set (successors (r ! b))" for s
    proof -
      from ok br that have "s < length r" by (simp add: succ_ok_def)
      then show ?thesis by (simp add: set_out_live_nth)
    qed
    have un: "(\<Union>s\<in>set (successors (r ! b)). df_in_live (set_out_live r ! s))
        = (\<Union>s\<in>set (successors (r ! b)). df_in_live (r ! s))"
      using succ_in by simp
    have out0: "df_out_live (r ! b) = {}" using fl(4) init_b by simp
    have nthb: "set_out_live r ! b
        = (r ! b)\<lparr> df_out_live := (\<Union>s\<in>set (successors (r ! b)). df_in_live (r ! s)) \<rparr>"
      using br out0 by (simp add: set_out_live_nth)
    have sc: "successors (set_out_live r ! b) = successors (r ! b)"
      and dd: "df_def (set_out_live r ! b) = df_def (r ! b)"
      and dr: "df_ref (set_out_live r ! b) = df_ref (r ! b)"
      and di: "df_in_live (set_out_live r ! b) = df_in_live (r ! b)"
      and ins: "instructions (set_out_live r ! b) = instructions (r ! b)"
      and ht: "hot (set_out_live r ! b) = hot (r ! b)"
      and dout: "df_out_live (set_out_live r ! b)
          = (\<Union>s\<in>set (successors (r ! b)). df_in_live (r ! s))"
      unfolding nthb by simp_all
    from fp br have nl: "df_in_live (r ! b) = new_live r b" by simp
    have c1: "instructions (set_out_live r ! b) = instructions (bbs ! b)"
      unfolding ins fl(5) init_b by simp
    have c2: "successors (set_out_live r ! b) = successors (bbs ! b)"
      unfolding sc fl(1) init_b by simp
    have c3: "hot (set_out_live r ! b) = hot (bbs ! b)"
      unfolding ht fl(6) init_b by simp
    have c4: "df_def (set_out_live r ! b) = df_def (block_def_ref vreg_first (bbs ! b))"
      unfolding dd fl(2) init_b ..
    have c5: "df_ref (set_out_live r ! b) = df_ref (block_def_ref vreg_first (bbs ! b))"
      unfolding dr fl(3) init_b ..
    have c6: "df_out_live (set_out_live r ! b)
              = (\<Union>s\<in>set (successors (set_out_live r ! b)). df_in_live (set_out_live r ! s))"
      unfolding dout sc un ..
    have c7: "df_in_live (set_out_live r ! b)
              = (df_out_live (set_out_live r ! b) - df_def (set_out_live r ! b))
                \<union> df_ref (set_out_live r ! b)"
      unfolding di dout dd dr nl new_live_eq ..
    from c1 c2 c3 c4 c5 c6 c7 show ?thesis by (intro conjI)
  qed
  then have "\<forall>b<length bbs.
          instructions (set_out_live r ! b) = instructions (bbs ! b)
          \<and> successors (set_out_live r ! b) = successors (bbs ! b)
          \<and> hot (set_out_live r ! b) = hot (bbs ! b)
          \<and> df_def (set_out_live r ! b) = df_def (block_def_ref vreg_first (bbs ! b))
          \<and> df_ref (set_out_live r ! b) = df_ref (block_def_ref vreg_first (bbs ! b))
          \<and> df_out_live (set_out_live r ! b)
              = (\<Union>s\<in>set (successors (set_out_live r ! b)). df_in_live (set_out_live r ! s))
          \<and> df_in_live (set_out_live r ! b)
              = (df_out_live (set_out_live r ! b) - df_def (set_out_live r ! b))
                \<union> df_ref (set_out_live r ! b)"
    by blast
  moreover have "length (set_out_live r) = length bbs" using len by simp
  ultimately show ?thesis using res by (intro exI [of _ "set_out_live r"] conjI)
qed

text \<open>
  C5. With valid successor links the analysis ends, and in the blocks it returns no
  application of the data-flow equation changes an in-live set any more:
  \<open>in(B) = (out(B) \ def(B)) \<union> ref(B)\<close>, where \<open>out(B)\<close>, the out-live set derived after the
  loop, is the union of \<open>in(S)\<close> over the successors \<open>S\<close> of \<open>B\<close>.
\<close>

theorem liveness_fixed_point:
  assumes "succ_ok bbs"
  shows "\<exists>bbs'. liveness vreg_first bbs = Some bbs' \<and> length bbs' = length bbs
     \<and> (\<forall>b<length bbs'.
          df_out_live (bbs' ! b) = (\<Union>s\<in>set (successors (bbs' ! b)). df_in_live (bbs' ! s))
          \<and> df_in_live (bbs' ! b) = (df_out_live (bbs' ! b) - df_def (bbs' ! b)) \<union> df_ref (bbs' ! b))"
proof -
  from liveness_blocks [OF assms, of vreg_first] obtain bbs' where
    r: "liveness vreg_first bbs = Some bbs'" and len: "length bbs' = length bbs"
    and eqs: "\<forall>b<length bbs.
          instructions (bbs' ! b) = instructions (bbs ! b)
          \<and> successors (bbs' ! b) = successors (bbs ! b)
          \<and> hot (bbs' ! b) = hot (bbs ! b)
          \<and> df_def (bbs' ! b) = df_def (block_def_ref vreg_first (bbs ! b))
          \<and> df_ref (bbs' ! b) = df_ref (block_def_ref vreg_first (bbs ! b))
          \<and> df_out_live (bbs' ! b) = (\<Union>s\<in>set (successors (bbs' ! b)). df_in_live (bbs' ! s))
          \<and> df_in_live (bbs' ! b)
              = (df_out_live (bbs' ! b) - df_def (bbs' ! b)) \<union> df_ref (bbs' ! b)"
    by (elim exE conjE) (rule that)
  have "\<forall>b<length bbs'.
          df_out_live (bbs' ! b) = (\<Union>s\<in>set (successors (bbs' ! b)). df_in_live (bbs' ! s))
          \<and> df_in_live (bbs' ! b) = (df_out_live (bbs' ! b) - df_def (bbs' ! b)) \<union> df_ref (bbs' ! b)"
  proof (intro allI impI)
    fix b assume "b < length bbs'"
    with len have bl: "b < length bbs" by simp
    note e = eqs [rule_format, OF bl]
    from e show "df_out_live (bbs' ! b) = (\<Union>s\<in>set (successors (bbs' ! b)). df_in_live (bbs' ! s))
          \<and> df_in_live (bbs' ! b) = (df_out_live (bbs' ! b) - df_def (bbs' ! b)) \<union> df_ref (bbs' ! b)"
      by (elim conjE) (intro conjI; assumption)
  qed
  with r len show ?thesis by (intro exI [of _ bbs'] conjI)
qed

lemma block_def_ref_same_code:
  assumes "instructions bb' = instructions bb" "successors bb' = successors bb" "hot bb' = hot bb"
  shows "block_def_ref vreg_first bb' = block_def_ref vreg_first bb"
  using assms by (intro basic_block.equality) (simp_all add: block_def_ref_def split: prod.splits)

text \<open>The analysis reads the instructions and the successor links only.\<close>

lemma liveness_ignores_df:
  assumes "length bbs2 = length bbs"
    and "\<And>b. b < length bbs \<Longrightarrow> instructions (bbs2 ! b) = instructions (bbs ! b)
          \<and> successors (bbs2 ! b) = successors (bbs ! b) \<and> hot (bbs2 ! b) = hot (bbs ! b)"
  shows "liveness vreg_first bbs2 = liveness vreg_first bbs"
proof -
  have "init_liveness vreg_first bbs2 ! b = init_liveness vreg_first bbs ! b"
    if "b < length bbs" for b
  proof -
    from assms(2) [OF that]
    have "block_def_ref vreg_first (bbs2 ! b) = block_def_ref vreg_first (bbs ! b)"
      by (intro block_def_ref_same_code) simp_all
    with that assms(1) show ?thesis by (simp add: init_liveness_def)
  qed
  then have "init_liveness vreg_first bbs2 = init_liveness vreg_first bbs"
    using assms(1) by (intro nth_equalityI) simp_all
  then show ?thesis by (simp add: liveness_def)
qed

text \<open>
  C10. With valid successor links, a second run of the analysis, on the blocks that the
  first run returns, returns the same blocks: the four bitsets of every block are those
  of the first run.
\<close>

theorem liveness_rerun:
  assumes "succ_ok bbs"
  shows "\<exists>bbs'. liveness vreg_first bbs = Some bbs' \<and> liveness vreg_first bbs' = Some bbs'"
proof -
  from liveness_blocks [OF assms, of vreg_first] obtain bbs' where
    r: "liveness vreg_first bbs = Some bbs'" and len: "length bbs' = length bbs"
    and eqs: "\<forall>b<length bbs.
          instructions (bbs' ! b) = instructions (bbs ! b)
          \<and> successors (bbs' ! b) = successors (bbs ! b)
          \<and> hot (bbs' ! b) = hot (bbs ! b)
          \<and> df_def (bbs' ! b) = df_def (block_def_ref vreg_first (bbs ! b))
          \<and> df_ref (bbs' ! b) = df_ref (block_def_ref vreg_first (bbs ! b))
          \<and> df_out_live (bbs' ! b) = (\<Union>s\<in>set (successors (bbs' ! b)). df_in_live (bbs' ! s))
          \<and> df_in_live (bbs' ! b)
              = (df_out_live (bbs' ! b) - df_def (bbs' ! b)) \<union> df_ref (bbs' ! b)"
    by (elim exE conjE) (rule that)
  have "instructions (bbs' ! b) = instructions (bbs ! b)
          \<and> successors (bbs' ! b) = successors (bbs ! b) \<and> hot (bbs' ! b) = hot (bbs ! b)"
    if "b < length bbs" for b
    using eqs [rule_format, OF that] by (elim conjE) (intro conjI; assumption)
  from liveness_ignores_df [OF len this] r
  have "liveness vreg_first bbs' = Some bbs'" by simp
  with r show ?thesis by (intro exI [of _ bbs'] conjI)
qed

lemma liveness_loop_blocks: "liveness 4 loop_blocks = Some loop_blocks_live"
  by code_simp

lemma succ_ok_loop_blocks: "succ_ok loop_blocks"
  by (simp add: succ_ok_def loop_blocks_def block_of_def All_less_Suc)

theorem liveness_fixed_point_witness:
  "liveness 4 loop_blocks = Some loop_blocks_live
   \<and> df_out_live (loop_blocks_live ! 1)
       = (\<Union>s\<in>set (successors (loop_blocks_live ! 1)). df_in_live (loop_blocks_live ! s))
   \<and> df_in_live (loop_blocks_live ! 1)
       = (df_out_live (loop_blocks_live ! 1) - df_def (loop_blocks_live ! 1))
         \<union> df_ref (loop_blocks_live ! 1)
   \<and> df_in_live (loop_blocks_live ! 1) = {5, 7}"
proof -
  from liveness_fixed_point [OF succ_ok_loop_blocks, of 4] obtain bbs' where
    r: "liveness 4 loop_blocks = Some bbs'"
    and e: "\<forall>b<length bbs'.
          df_out_live (bbs' ! b) = (\<Union>s\<in>set (successors (bbs' ! b)). df_in_live (bbs' ! s))
          \<and> df_in_live (bbs' ! b) = (df_out_live (bbs' ! b) - df_def (bbs' ! b)) \<union> df_ref (bbs' ! b)"
    by (elim exE conjE) (rule that)
  from r liveness_loop_blocks have b: "bbs' = loop_blocks_live" by simp
  have l: "(1::nat) < length loop_blocks_live" by (simp add: loop_blocks_live_def)
  have v: "df_in_live (loop_blocks_live ! 1) = {5, 7}" by (simp add: loop_blocks_live_def)
  from e [unfolded b, rule_format, OF l] liveness_loop_blocks v show ?thesis
    by (intro conjI) (elim conjE, assumption)+
qed

theorem liveness_rerun_witness:
  "liveness 4 loop_blocks = Some loop_blocks_live
   \<and> liveness 4 loop_blocks_live = Some loop_blocks_live"
proof -
  from liveness_rerun [OF succ_ok_loop_blocks, of 4] obtain bbs' where
    "liveness 4 loop_blocks = Some bbs'" "liveness 4 bbs' = Some bbs'"
    by (elim exE conjE) (rule that)
  with liveness_loop_blocks show ?thesis by simp
qed

subsection \<open>The spill rewriter\<close>

lemma spill_and_swap_reaches:
  "reached_unreachable (snd (snd (spill_and_swap vreg_gp vreg_fp slot_offset m list sl st)))"
  by (simp add: spill_and_swap_def split: prod.splits)

lemma spill_and_swap_fails:
  "assume_unreachable (spill_and_swap vreg_gp vreg_fp slot_offset m list sl st) = Inl Unreachable"
  by (simp add: assume_unreachable_def spill_and_swap_reaches)

text \<open>
  The callback returns only from the visit of a register that is not spilled, and then it
  has changed nothing; so does the rewriting of an instruction.
\<close>

lemma spill_visit_returns:
  "spill_visit vreg_first vreg_gp vreg_fp gr slot_offset v rs = Inr rs' \<Longrightarrow> rs' = rs"
  by (cases v) (auto simp: spill_visit_def spill_and_swap_fails split: if_splits)

lemma fold_err_unchanged:
  assumes "\<And>x s s'. f x s = Inr s' \<Longrightarrow> s' = s"
  shows "fold_err f xs s = Inr s' \<Longrightarrow> s' = s"
proof (induction xs)
  case Nil
  then show ?case by simp
next
  case (Cons x xs)
  then show ?case using assms [of x s] by (cases "f x s") auto
qed

lemma spill_insn_returns:
  assumes "spill_insn vreg_first vreg_gp vreg_fp gr slot_offset i st = Inr rs"
  shows "insn rs = i \<and> vars rs = st\<lparr> need_cg := False \<rparr>"
proof -
  from assms have "rs = \<lparr> insn = i, reload_list = replicate 4 free_entry,
      spill_list = replicate 1 free_entry, vars = st\<lparr> need_cg := False \<rparr> \<rparr>"
    unfolding spill_insn_def by (rule fold_err_unchanged [rotated]) (rule spill_visit_returns)
  then show ?thesis by simp
qed

lemma reg_places_add:
  "reg_places add_insn = [(PArg 0, gp_reg 5, True), (PArg 1, gp_reg 6, True), (POut, gp_reg 5, False)]"
  by (simp add: reg_places_def add_insn_def gp_reg_def is_null_def)

text \<open>
  C7. The instruction \<open>r5 = op r5, r6\<close> with \<open>r5\<close> spilled to slot 1, the only slot: the
  claim has \<^verbatim>\<open>used_stack_length = 16\<close> after the allocation. The first call of
  \<^verbatim>\<open>spill_and_swap\<close> puts the slot to use, counts it in \<^verbatim>\<open>num_spill_slots\<close>, leaves its loop
  by \<^verbatim>\<open>break\<close> and arrives at \<^verbatim>\<open>assume_unreachable()\<close>: the rewriting of the instruction
  fails there, and the statement that sets \<^verbatim>\<open>used_stack_length\<close> is not reached.
\<close>

theorem one_spilled_slot_stops_at_unreachable:
  "spill_insn 4 gp_reg fp_reg one_spilled 0 add_insn start_state = Inl Unreachable
   \<and> num_spill_slots (snd (snd (spill_and_swap gp_reg fp_reg 0 (gp_reg 5)
        (replicate 4 free_entry) (spill_slot (one_spilled ! 5)) start_state))) = 1
   \<and> used_stack_length 1 = 16"
proof -
  have sl: "spill_slot (one_spilled ! 5) = 1" and len: "length one_spilled = 7"
    by (simp_all add: one_spilled_def gp_node_def nth_append)
  have r: "\<not> is_pseudo 4 (gp_reg 5)" "is_virt (gp_reg 5)" "uid (gp_reg 5) = 5"
    by (simp_all add: is_pseudo_def is_virt_def virt_def gp_reg_def)
  have v: "spill_visit 4 gp_reg fp_reg one_spilled 0 (PArg 0, gp_reg 5, True) rs = Inl Unreachable"
    for rs
    by (simp add: spill_visit_def spill_and_swap_fails r sl len)
  have a: "spill_insn 4 gp_reg fp_reg one_spilled 0 add_insn start_state = Inl Unreachable"
    by (simp add: spill_insn_def reg_places_add v)
  have b: "num_spill_slots (snd (snd (spill_and_swap gp_reg fp_reg 0 (gp_reg 5)
        (replicate 4 free_entry) 1 start_state))) = 1"
    by (simp add: spill_and_swap_def numeral_eq_Suc free_entry_def is_null_def null_reg_def
        next_reg_def start_state_def gp_reg_def max_int32_def)
  have c: "used_stack_length 1 = 16"
    by (simp add: used_stack_length_def)
  from a b c sl show ?thesis by simp
qed

text \<open>
  C9. An operand placed in the first, free entry of the reload list: it is substituted by
  the fresh register, and control leaves the loop by \<^verbatim>\<open>break\<close> and arrives at
  \<^verbatim>\<open>assume_unreachable()\<close>, which follows the loop on every path.
\<close>

theorem spill_and_swap_reaches_unreachable:
  "spill_and_swap gp_reg fp_reg 0 (gp_reg 5) (replicate 4 free_entry) 1 start_state =
     (\<lparr> src = gp_reg 5, dst = gp_reg 200, slot = 0 \<rparr> # replicate 3 free_entry,
      gp_reg 200,
      \<lparr> need_cg = True, num_spill_slots = 1, gp_counter = 201, fp_counter = 300,
        reached_unreachable = True \<rparr>)"
  by (simp add: spill_and_swap_def numeral_eq_Suc free_entry_def is_null_def null_reg_def
      next_reg_def start_state_def gp_reg_def max_int32_def)

subsection \<open>The last pass\<close>

text \<open>
  C8. After the last pass of \<^verbatim>\<open>allocate_registers\<close> no block holds a register-to-register
  move (\<open>movi\<close> or \<open>movf\<close> with a register as first operand) whose destination is its source.
\<close>

theorem no_self_move_after_final_pass:
  "\<forall>bb \<in> set (remove_eliminated_moves bbs). \<forall>i \<in> set (instructions bb).
     \<not> ((vop i = movi \<or> vop i = movf) \<and> is_reg (arg_at i 0) \<and> out i = reg_of (arg_at i 0))"
  by (auto simp: remove_eliminated_moves_def eliminated_move_def)

theorem no_self_move_after_final_pass_witness:
  "mov_insn (gp_reg 101) (gp_reg 100)
     \<in> set (instructions (hd (remove_eliminated_moves
          [block_of [mov_insn (gp_reg 100) (gp_reg 100), mov_insn (gp_reg 101) (gp_reg 100)]])))
   \<and> out (mov_insn (gp_reg 101) (gp_reg 100)) \<noteq> reg_of (arg_at (mov_insn (gp_reg 101) (gp_reg 100)) 0)"
proof -
  let ?bbs = "[block_of [mov_insn (gp_reg 100) (gp_reg 100), mov_insn (gp_reg 101) (gp_reg 100)]]"
  let ?m = "mov_insn (gp_reg 101) (gp_reg 100)"
  have b: "hd (remove_eliminated_moves ?bbs) \<in> set (remove_eliminated_moves ?bbs)"
    by (simp add: remove_eliminated_moves_def)
  have i: "?m \<in> set (instructions (hd (remove_eliminated_moves ?bbs)))"
    by (simp add: remove_eliminated_moves_def block_of_def eliminated_move_def mov_insn_def
        arg_at_def gp_reg_def)
  have r: "vop ?m = movi" "is_reg (arg_at ?m 0)"
    by (simp_all add: mov_insn_def arg_at_def)
  from no_self_move_after_final_pass [of ?bbs, rule_format, OF b i] r i
  show ?thesis by simp
qed

end
